theory Spec2Isabelle
  imports Complex_Main "HOL-Library.Multiset"
begin

section \<open>The scheduling problem (external interface of the simplex schedulers)\<close>

text \<open>
  \<^verbatim>\<open>lib/Scheduling/SimplexSchedulers.cpp\<close> consumes the classes \<^verbatim>\<open>Problem\<close> and
  \<^verbatim>\<open>CyclicProblem\<close> through a handful of queries and two setters. An operation is an
  opaque handle (\<^verbatim>\<open>Operation *\<close>), a dependence has a source and a destination.
  The C++ \<^verbatim>\<open>int\<close> and \<^verbatim>\<open>unsigned\<close> are modelled by the unbounded \<open>int\<close> and \<open>nat\<close>:
  signed overflow is undefined behaviour in C++, so the model describes the runs in which
  every intermediate value fits its machine type.
\<close>

type_synonym operation = nat

datatype dependence = Dependence (getSource: operation) (getDestination: operation)

text \<open>
  Modelled from the spec: the class \<^verbatim>\<open>Problem\<close> (\<^verbatim>\<open>circt/Scheduling/Problems.h\<close>) is
  not part of the sources at hand. \<open>getOperations\<close> enumerates the operations in a stable
  order, \<open>getDependences op\<close> enumerates the dependences whose destination is \<open>op\<close>,
  \<open>getLatency op\<close> is the resolved latency
  \<^verbatim>\<open>*prob.getLatency(*prob.getLinkedOperatorType(op))\<close> (its absence is a usage error
  that the schedulers do not handle), and \<open>startTime\<close> is the property written by
  \<^verbatim>\<open>setStartTime\<close>. Latencies, distances and start times are \<^verbatim>\<open>unsigned\<close> in the source
  and natural numbers here; what the source computes with them in 32 bits is written out
  where it does so.
\<close>

record problem =
  getOperations :: "operation list"
  getDependences :: "operation \<Rightarrow> dependence list"
  getLatency :: "operation \<Rightarrow> nat"
  startTime :: "operation \<Rightarrow> nat option"

text \<open>
  Modelled from the spec: \<^verbatim>\<open>CyclicProblem\<close> extends \<^verbatim>\<open>Problem\<close> by an optional
  distance per dependence and by the initiation interval written by
  \<^verbatim>\<open>setInitiationInterval\<close>.
\<close>

record cyclicProblem = problem +
  getDistance :: "dependence \<Rightarrow> nat option"
  initiationInterval :: "nat option"

definition setStartTime :: "'a problem_scheme \<Rightarrow> operation \<Rightarrow> nat \<Rightarrow> 'a problem_scheme" where
  "setStartTime prob opn t = prob\<lparr>startTime := (startTime prob)(opn \<mapsto> t)\<rparr>"

definition setInitiationInterval :: "'a cyclicProblem_scheme \<Rightarrow> nat \<Rightarrow> 'a cyclicProblem_scheme" where
  "setInitiationInterval prob ii = prob\<lparr>initiationInterval := Some ii\<rparr>"

section \<open>The scheduler state\<close>

datatype LogicalResult = success | failure

text \<open>A failed \<^verbatim>\<open>assert\<close> aborts the run.\<close>

datatype error = AssertionFailure

record simplexScheduler =
  parameterT :: int
  tableau :: "int list list"
  implicitBasicVariableColumnVector :: "int list"
  nonBasicVariables :: "nat list"
  basicVariables :: "nat list"
  nRows :: nat
  nColumns :: nat

definition objectiveRow :: nat where "objectiveRow = 0"
definition firstConstraintRow :: nat where "firstConstraintRow = 1"
definition parameter1Column :: nat where "parameter1Column = 0"
definition parameterTColumn :: nat where "parameterTColumn = 1"
definition firstNonBasicVariableColumn :: nat where "firstNonBasicVariableColumn = 2"

declare objectiveRow_def [simp] firstConstraintRow_def [simp] parameter1Column_def [simp]
  parameterTColumn_def [simp] firstNonBasicVariableColumn_def [simp]

text \<open>The freshly constructed scheduler object: all vectors are empty.\<close>

definition newScheduler :: simplexScheduler where
  "newScheduler = \<lparr>parameterT = 0, tableau = [], implicitBasicVariableColumnVector = [],
     nonBasicVariables = [], basicVariables = [], nRows = 0, nColumns = 0\<rparr>"

section \<open>Tableau construction\<close>

text \<open>
  Latencies and distances are 32-bit \<^verbatim>\<open>unsigned\<close> values, the integers from 0 to
  \<open>2\<^sup>3\<^sup>2 - 1\<close>. Negating one wraps modulo \<open>2\<^sup>3\<^sup>2\<close>, and storing one in an \<^verbatim>\<open>int\<close> of
  the tableau reads its 32 bits in two's complement.
\<close>

definition negateUnsigned :: "int \<Rightarrow> int" where
  "negateUnsigned u = (- u) mod 4294967296"

definition unsignedToInt :: "int \<Rightarrow> int" where
  "unsignedToInt u =
     (let v = u mod 4294967296 in if v < 2147483648 then v else v - 4294967296)"

text \<open>
  \<^verbatim>\<open>SimplexSchedulerBase::fillConstraintRow\<close>. The map \<open>opColumns\<close> is a
  \<^verbatim>\<open>SmallDenseMap<Operation *, unsigned>\<close>; its \<^verbatim>\<open>operator[]\<close> yields 0 for a key that
  was never inserted, so it is a total function here. The three writes happen in the
  order of the source: for a dependence whose source and destination coincide the third
  write overwrites the second.
\<close>

definition fillConstraintRow ::
  "'a problem_scheme \<Rightarrow> int list \<Rightarrow> dependence \<Rightarrow> (operation \<Rightarrow> nat) \<Rightarrow> int list" where
  "fillConstraintRow prob row dep opColumns =
     (let src = getSource dep;
          dst = getDestination dep;
          latency = getLatency prob src;
          row = row[parameter1Column := unsignedToInt (negateUnsigned (int latency))];
          row = row[opColumns src := 1];
          row = row[opColumns dst := - 1]
      in row)"

text \<open>\<^verbatim>\<open>CyclicSimplexScheduler::fillConstraintRow\<close>, the override for cyclic problems.\<close>

definition cyclicFillConstraintRow ::
  "'a cyclicProblem_scheme \<Rightarrow> int list \<Rightarrow> dependence \<Rightarrow> (operation \<Rightarrow> nat) \<Rightarrow> int list" where
  "cyclicFillConstraintRow prob row dep opColumns =
     (let row = fillConstraintRow prob row dep opColumns
      in case getDistance prob dep of
           Some distance \<Rightarrow> row[parameterTColumn := unsignedToInt (int distance)]
         | None \<Rightarrow> row)"

text \<open>
  The first loop of \<^verbatim>\<open>buildTableau\<close>: columns and variable numbers for the operations'
  start times. The state of the loop is \<open>(opCols, nonBasicVariables, varNum)\<close>.
\<close>

definition assignColumns ::
  "operation list \<Rightarrow> (operation \<Rightarrow> nat) \<times> nat list \<times> nat \<Rightarrow> (operation \<Rightarrow> nat) \<times> nat list \<times> nat" where
  "assignColumns ops = fold (\<lambda>opn (opCols, nonBasic, varNum).
       (opCols(opn := firstNonBasicVariableColumn + varNum), nonBasic @ [varNum], varNum + 1)) ops"

text \<open>
  The second (nested) loop of \<^verbatim>\<open>buildTableau\<close>: one row per dependence. The state of the
  loop is \<open>(tableau, implicitBasicVariableColumnVector, basicVariables, varNum)\<close>; the
  virtual call of \<^verbatim>\<open>fillConstraintRow\<close> is the parameter \<open>fill\<close>.
\<close>

definition addConstraintRows ::
  "(int list \<Rightarrow> dependence \<Rightarrow> (operation \<Rightarrow> nat) \<Rightarrow> int list) \<Rightarrow> nat \<Rightarrow> (operation \<Rightarrow> nat) \<Rightarrow>
   dependence list \<Rightarrow> int list list \<times> int list \<times> nat list \<times> nat \<Rightarrow> int list list \<times> int list \<times> nat list \<times> nat" where
  "addConstraintRows fill nCols opCols deps = fold (\<lambda>dep (tab, implicit, basic, varNum).
       (tab @ [fill (replicate nCols 0) dep opCols], implicit @ [0], basic @ [varNum], varNum + 1)) deps"

definition buildTableau ::
  "(int list \<Rightarrow> dependence \<Rightarrow> (operation \<Rightarrow> nat) \<Rightarrow> int list) \<Rightarrow> 'a problem_scheme \<Rightarrow> operation \<Rightarrow>
   simplexScheduler \<Rightarrow> simplexScheduler" where
  "buildTableau fill prob lastOp s =
     (let (opCols, nonBasic, varNum) =
            assignColumns (getOperations prob) (\<lambda>_. 0, nonBasicVariables s, 0);
          nCols = 2 + length nonBasic;
          objRowVec = (replicate nCols 0)[opCols lastOp := 1];
          (tab, implicit, basic, varNum) =
            addConstraintRows fill nCols opCols
              (concat (map (getDependences prob) (getOperations prob)))
              (tableau s @ [objRowVec], implicitBasicVariableColumnVector s @ [0],
               basicVariables s, varNum)
      in s\<lparr>tableau := tab, implicitBasicVariableColumnVector := implicit,
            nonBasicVariables := nonBasic, basicVariables := basic,
            nRows := length tab, nColumns := nCols\<rparr>)"

section \<open>Pivot selection\<close>

fun findPivotRowLoop :: "int list list \<Rightarrow> int \<Rightarrow> nat list \<Rightarrow> nat option" where
  "findPivotRowLoop tab T [] = None"
| "findPivotRowLoop tab T (row # rows) =
     (let rowVal = tab ! row ! parameter1Column + tab ! row ! parameterTColumn * T
      in if rowVal < 0 then Some row else findPivotRowLoop tab T rows)"

definition findPivotRow :: "simplexScheduler \<Rightarrow> nat option" where
  "findPivotRow s =
     findPivotRowLoop (tableau s) (parameterT s) [firstConstraintRow..<nRows s]"

text \<open>
  The loop of \<^verbatim>\<open>findPivotColumn\<close> with its two accumulators \<open>maxQuot\<close> and \<open>pivotCol\<close>;
  the \<^verbatim>\<open>assert(pivotCand == -1)\<close> aborts.
\<close>

fun findPivotColumnLoop ::
  "int list list \<Rightarrow> nat \<Rightarrow> nat list \<Rightarrow> int option \<Rightarrow> nat option \<Rightarrow> error + nat option" where
  "findPivotColumnLoop tab pivotRow [] maxQuot pivotCol = Inr pivotCol"
| "findPivotColumnLoop tab pivotRow (col # cols) maxQuot pivotCol =
     (let pivotCand = tab ! pivotRow ! col
      in if pivotCand < 0 then
           if pivotCand \<noteq> - 1 then Inl AssertionFailure
           else
             let quot = - (tab ! objectiveRow ! col)
             in if maxQuot = None \<or> quot > the maxQuot
                then findPivotColumnLoop tab pivotRow cols (Some quot) (Some col)
                else findPivotColumnLoop tab pivotRow cols maxQuot pivotCol
         else findPivotColumnLoop tab pivotRow cols maxQuot pivotCol)"

definition findPivotColumn :: "simplexScheduler \<Rightarrow> nat \<Rightarrow> error + nat option" where
  "findPivotColumn s pivotRow =
     findPivotColumnLoop (tableau s) pivotRow [firstNonBasicVariableColumn..<nColumns s] None None"

section \<open>Row operations and the pivot\<close>

definition multiplyRow :: "simplexScheduler \<Rightarrow> nat \<Rightarrow> int \<Rightarrow> error + simplexScheduler" where
  "multiplyRow s row factor =
     (if factor = 0 then Inl AssertionFailure
      else Inr (s\<lparr>tableau :=
                    fold (\<lambda>col tab. tab[row := (tab ! row)[col := tab ! row ! col * factor]])
                      [0..<nColumns s] (tableau s),
                  implicitBasicVariableColumnVector :=
                    (implicitBasicVariableColumnVector s)
                      [row := implicitBasicVariableColumnVector s ! row * factor]\<rparr>))"

definition addMultipleOfRow ::
  "simplexScheduler \<Rightarrow> nat \<Rightarrow> int \<Rightarrow> nat \<Rightarrow> error + simplexScheduler" where
  "addMultipleOfRow s sourceRow factor targetRow =
     (if \<not> (factor \<noteq> 0 \<and> sourceRow \<noteq> targetRow) then Inl AssertionFailure
      else Inr (s\<lparr>tableau :=
                    fold (\<lambda>col tab. tab[targetRow := (tab ! targetRow)
                            [col := tab ! targetRow ! col + tab ! sourceRow ! col * factor]])
                      [0..<nColumns s] (tableau s),
                  implicitBasicVariableColumnVector :=
                    (implicitBasicVariableColumnVector s)
                      [targetRow := implicitBasicVariableColumnVector s ! targetRow +
                         implicitBasicVariableColumnVector s ! sourceRow * factor]\<rparr>))"

text \<open>The body of the elimination loop of \<^verbatim>\<open>pivot\<close>, for one row.\<close>

definition eliminateRow :: "nat \<Rightarrow> nat \<Rightarrow> nat \<Rightarrow> simplexScheduler \<Rightarrow> error + simplexScheduler" where
  "eliminateRow pivotRow pivotColumn row s =
     (if row = pivotRow then Inr s
      else
        let elem = tableau s ! row ! pivotColumn
        in if elem = 0 then Inr s
           else addMultipleOfRow s pivotRow (- elem) row)"

text \<open>A \<^verbatim>\<open>for\<close> loop whose body may abort.\<close>

fun forEach :: "('i \<Rightarrow> 's \<Rightarrow> error + 's) \<Rightarrow> 'i list \<Rightarrow> 's \<Rightarrow> error + 's" where
  "forEach body [] s = Inr s"
| "forEach body (i # is) s = (case body i s of Inl e \<Rightarrow> Inl e | Inr s' \<Rightarrow> forEach body is s')"

text \<open>The body of the last loop of \<^verbatim>\<open>pivot\<close>: copy the implicit column in, and reset it.\<close>

definition swapColumnEntry :: "nat \<Rightarrow> nat \<Rightarrow> simplexScheduler \<Rightarrow> simplexScheduler" where
  "swapColumnEntry pivotColumn row s =
     s\<lparr>tableau := (tableau s)[row := (tableau s ! row)
                     [pivotColumn := implicitBasicVariableColumnVector s ! row]],
       implicitBasicVariableColumnVector := (implicitBasicVariableColumnVector s)[row := 0]\<rparr>"

text \<open>\<^verbatim>\<open>std::swap(nonBasicVariables[pivotColumn - 2], basicVariables[pivotRow - 1])\<close>\<close>

definition swapVariables :: "nat \<Rightarrow> nat \<Rightarrow> simplexScheduler \<Rightarrow> simplexScheduler" where
  "swapVariables pivotRow pivotColumn s =
     (let i = pivotColumn - firstNonBasicVariableColumn;
          j = pivotRow - firstConstraintRow
      in s\<lparr>nonBasicVariables := (nonBasicVariables s)[i := basicVariables s ! j],
           basicVariables := (basicVariables s)[j := nonBasicVariables s ! i]\<rparr>)"

definition pivot :: "simplexScheduler \<Rightarrow> nat \<Rightarrow> nat \<Rightarrow> error + simplexScheduler" where
  "pivot s pivotRow pivotColumn =
     (let s = s\<lparr>implicitBasicVariableColumnVector :=
                  (implicitBasicVariableColumnVector s)[pivotRow := 1]\<rparr>;
          pivotElem = tableau s ! pivotRow ! pivotColumn
      in if pivotElem \<noteq> - 1 then Inl AssertionFailure
         else case multiplyRow s pivotRow (- 1) of
                Inl e \<Rightarrow> Inl e
              | Inr s \<Rightarrow>
                  (case forEach (eliminateRow pivotRow pivotColumn) [0..<nRows s] s of
                     Inl e \<Rightarrow> Inl e
                   | Inr s \<Rightarrow>
                       Inr (swapVariables pivotRow pivotColumn
                              (fold (swapColumnEntry pivotColumn) [0..<nRows s] s))))"

section \<open>The solve loop\<close>

text \<open>
  C++ integer division truncates towards zero, whereas \<open>div\<close> on \<open>int\<close> rounds down.
\<close>

definition truncDiv :: "int \<Rightarrow> int \<Rightarrow> int" where
  "truncDiv a b = sgn a * sgn b * (\<bar>a\<bar> div \<bar>b\<bar>)"

text \<open>The value assigned to \<^verbatim>\<open>parameterT\<close> when the initiation interval grows.\<close>

definition increasedII :: "int \<Rightarrow> int \<Rightarrow> int" where
  "increasedII entry1Col entryTCol = truncDiv (- entry1Col - 1) entryTCol + 1"

text \<open>
  One iteration of the \<^verbatim>\<open>while\<close> loop of \<^verbatim>\<open>solveTableau\<close>: either the loop goes on with
  a new state, or it returns, or an assertion fails.
\<close>

datatype solveStepResult =
  Continue simplexScheduler | Return LogicalResult | Abort error

definition solveStep :: "simplexScheduler \<Rightarrow> solveStepResult" where
  "solveStep s =
     (case findPivotRow s of
        None \<Rightarrow> Return success
      | Some pivotRow \<Rightarrow>
          (case findPivotColumn s pivotRow of
             Inl e \<Rightarrow> Abort e
           | Inr (Some pivotCol) \<Rightarrow>
               (case pivot s pivotRow pivotCol of
                  Inl e \<Rightarrow> Abort e
                | Inr s' \<Rightarrow> Continue s')
           | Inr None \<Rightarrow>
               (let entry1Col = tableau s ! pivotRow ! parameter1Column;
                    entryTCol = tableau s ! pivotRow ! parameterTColumn
                in if entryTCol > 0 then
                     if \<not> entry1Col < 0 then Abort AssertionFailure
                     else Continue (s\<lparr>parameterT := increasedII entry1Col entryTCol\<rparr>)
                   else Return failure)))"

text \<open>
  The loop itself. Nothing bounds the number of iterations in the source, so the model
  is a partial function: \<open>None\<close> stands for a run that never returns.
\<close>

partial_function (option) solveTableau ::
  "simplexScheduler \<Rightarrow> (error + LogicalResult \<times> simplexScheduler) option" where
  "solveTableau s =
     (case solveStep s of
        Continue s' \<Rightarrow> solveTableau s'
      | Return r \<Rightarrow> Some (Inr (r, s))
      | Abort e \<Rightarrow> Some (Inl e))"

declare solveTableau.simps [code]

section \<open>Result extraction and the two schedulers\<close>

text \<open>
  \<^verbatim>\<open>storeStartTimes\<close>, as the list of the calls of \<^verbatim>\<open>setStartTime\<close> it makes, in order.
  The conversion of the \<^verbatim>\<open>int\<close> row value to \<^verbatim>\<open>unsigned\<close> is \<open>nat\<close>: the value is not
  negative when the solve loop has returned success.
\<close>

definition basicStartTimes :: "operation list \<Rightarrow> simplexScheduler \<Rightarrow> (operation \<times> nat) list" where
  "basicStartTimes ops s =
     concat (map (\<lambda>i.
        let varNum = basicVariables s ! i
        in if varNum < length ops
           then [(ops ! varNum,
                  nat (tableau s ! (firstConstraintRow + i) ! parameter1Column +
                       tableau s ! (firstConstraintRow + i) ! parameterTColumn * parameterT s))]
           else [])
       [0..<length (basicVariables s)])"

definition nonBasicStartTimes :: "operation list \<Rightarrow> simplexScheduler \<Rightarrow> (operation \<times> nat) list" where
  "nonBasicStartTimes ops s =
     concat (map (\<lambda>i.
        let varNum = nonBasicVariables s ! i
        in if varNum < length ops then [(ops ! varNum, 0)] else [])
       [0..<length (nonBasicVariables s)])"

definition storeStartTimes :: "'a problem_scheme \<Rightarrow> simplexScheduler \<Rightarrow> 'a problem_scheme" where
  "storeStartTimes prob s =
     fold (\<lambda>(opn, t) prob. setStartTime prob opn t)
       (basicStartTimes (getOperations prob) s @ nonBasicStartTimes (getOperations prob) s) prob"

text \<open>
  \<^verbatim>\<open>SimplexScheduler::schedule\<close>, called by \<^verbatim>\<open>scheduleSimplex(Problem &, Operation *)\<close> on a
  fresh scheduler. On failure the diagnostic "problem is infeasible" is emitted and the
  result is \<open>failure\<close>.
\<close>

definition schedule :: "problem \<Rightarrow> operation \<Rightarrow> (error + LogicalResult \<times> problem) option" where
  "schedule prob lastOp =
     (let s = buildTableau (fillConstraintRow prob) prob lastOp (newScheduler\<lparr>parameterT := 0\<rparr>)
      in case solveTableau s of
           None \<Rightarrow> None
         | Some (Inl e) \<Rightarrow> Some (Inl e)
         | Some (Inr (failure, s')) \<Rightarrow> Some (Inr (failure, prob))
         | Some (Inr (success, s')) \<Rightarrow>
             if parameterT s' \<noteq> 0 then Some (Inl AssertionFailure)
             else Some (Inr (success, storeStartTimes prob s')))"

text \<open>
  \<^verbatim>\<open>CyclicSimplexScheduler::schedule\<close>, called by
  \<^verbatim>\<open>scheduleSimplex(CyclicProblem &, Operation *)\<close>. The \<^verbatim>\<open>int\<close> \<^verbatim>\<open>parameterT\<close> is
  converted to the \<^verbatim>\<open>unsigned\<close> argument of \<^verbatim>\<open>setInitiationInterval\<close>.
\<close>

definition cyclicSchedule ::
  "cyclicProblem \<Rightarrow> operation \<Rightarrow> (error + LogicalResult \<times> cyclicProblem) option" where
  "cyclicSchedule prob lastOp =
     (let s = buildTableau (cyclicFillConstraintRow prob) prob lastOp
                (newScheduler\<lparr>parameterT := 1\<rparr>)
      in case solveTableau s of
           None \<Rightarrow> None
         | Some (Inl e) \<Rightarrow> Some (Inl e)
         | Some (Inr (failure, s')) \<Rightarrow> Some (Inr (failure, prob))
         | Some (Inr (success, s')) \<Rightarrow>
             Some (Inr (success,
               storeStartTimes (setInitiationInterval prob (nat (parameterT s'))) s')))"

section \<open>Specification-level notions\<close>

text \<open>The value of a tableau row under the current trial value of \<open>T\<close>.\<close>

definition rowValue :: "simplexScheduler \<Rightarrow> nat \<Rightarrow> int" where
  "rowValue s r =
     tableau s ! r ! parameter1Column + parameterT s * (tableau s ! r ! parameterTColumn)"

text \<open>
  The pivot candidates of a row: the non-basic-variable columns with a negative entry.
\<close>

definition pivotCandidates :: "simplexScheduler \<Rightarrow> nat \<Rightarrow> nat set" where
  "pivotCandidates s pivotRow =
     {col. firstNonBasicVariableColumn \<le> col \<and> col < nColumns s \<and> tableau s ! pivotRow ! col < 0}"

text \<open>
  The invariant of the data model: the entries of the constraint rows in the
  non-basic-variable columns are \<open>-1\<close>, \<open>0\<close> or \<open>1\<close>.
\<close>

definition unitEntries :: "simplexScheduler \<Rightarrow> bool" where
  "unitEntries s =
     (\<forall>r c. firstConstraintRow \<le> r \<and> r < nRows s \<and>
            firstNonBasicVariableColumn \<le> c \<and> c < nColumns s \<longrightarrow>
            tableau s ! r ! c \<in> {- 1, 0, 1})"

text \<open>
  \<open>leftmostMax f S c\<close>: \<open>c\<close> maximises \<open>f\<close> over \<open>S\<close>, and is the leftmost such column.
\<close>

definition leftmostMax :: "(nat \<Rightarrow> int) \<Rightarrow> nat set \<Rightarrow> nat \<Rightarrow> bool" where
  "leftmostMax f S c \<longleftrightarrow> c \<in> S \<and> (\<forall>c'\<in>S. f c' \<le> f c) \<and> (\<forall>c'\<in>S. c' < c \<longrightarrow> f c' < f c)"

text \<open>
  The shape of the state between two pivots: the dimensions agree with the vectors, and
  the scratch vector is zero.
\<close>

definition wellFormed :: "simplexScheduler \<Rightarrow> bool" where
  "wellFormed s \<longleftrightarrow>
     nRows s = length (tableau s) \<and>
     (\<forall>row\<in>set (tableau s). length row = nColumns s) \<and>
     implicitBasicVariableColumnVector s = replicate (nRows s) 0 \<and>
     length (basicVariables s) + firstConstraintRow = nRows s \<and>
     length (nonBasicVariables s) + firstNonBasicVariableColumn = nColumns s"

text \<open>
  The tableau after a pivot, entry by entry: the pivot row is negated, the multiple of it
  that clears the pivot column is added to every other row, and the pivot column is
  replaced by the column of the variable that leaves the basis.
\<close>

definition pivotTableau :: "int list list \<Rightarrow> nat \<Rightarrow> nat \<Rightarrow> int list list" where
  "pivotTableau tab pivotRow pivotColumn =
     map (\<lambda>r. map (\<lambda>c.
            if r = pivotRow then (if c = pivotColumn then - 1 else - (tab ! pivotRow ! c))
            else if c = pivotColumn then tab ! r ! pivotColumn
            else tab ! r ! c + tab ! r ! pivotColumn * (tab ! pivotRow ! c))
          [0..<length (tab ! r)])
       [0..<length tab]"

text \<open>
  The state after \<open>k\<close> iterations of the elimination loop of \<open>pivot\<close>, and the tableau
  and scratch vector after \<open>k\<close> iterations of its last loop.
\<close>

definition eliminatedRows :: "simplexScheduler \<Rightarrow> nat \<Rightarrow> nat \<Rightarrow> nat \<Rightarrow> int list list" where
  "eliminatedRows s pivotRow pivotColumn k =
     map (\<lambda>r. if r < k \<and> r \<noteq> pivotRow
                then map (\<lambda>c. tableau s ! r ! c + tableau s ! pivotRow ! c * (- (tableau s ! r ! pivotColumn)))
                       [0..<nColumns s]
                else tableau s ! r) [0..<length (tableau s)]"

definition eliminatedImplicit :: "simplexScheduler \<Rightarrow> nat \<Rightarrow> nat \<Rightarrow> nat \<Rightarrow> int list" where
  "eliminatedImplicit s pivotRow pivotColumn k =
     map (\<lambda>r. if r < k \<and> r \<noteq> pivotRow
                then implicitBasicVariableColumnVector s ! r +
                     implicitBasicVariableColumnVector s ! pivotRow * (- (tableau s ! r ! pivotColumn))
                else implicitBasicVariableColumnVector s ! r)
           [0..<length (implicitBasicVariableColumnVector s)]"

definition eliminated :: "simplexScheduler \<Rightarrow> nat \<Rightarrow> nat \<Rightarrow> nat \<Rightarrow> simplexScheduler" where
  "eliminated s pivotRow pivotColumn k =
     s\<lparr>tableau := eliminatedRows s pivotRow pivotColumn k,
       implicitBasicVariableColumnVector := eliminatedImplicit s pivotRow pivotColumn k\<rparr>"

definition swappedRows :: "simplexScheduler \<Rightarrow> nat \<Rightarrow> nat \<Rightarrow> int list list" where
  "swappedRows s pivotColumn k =
     map (\<lambda>r. if r < k
                 then (tableau s ! r)[pivotColumn := implicitBasicVariableColumnVector s ! r]
                 else tableau s ! r) [0..<length (tableau s)]"

definition swappedImplicit :: "simplexScheduler \<Rightarrow> nat \<Rightarrow> int list" where
  "swappedImplicit s k =
     map (\<lambda>r. if r < k then 0 else implicitBasicVariableColumnVector s ! r)
       [0..<length (implicitBasicVariableColumnVector s)]"

text \<open>
  \<open>loopStep s s'\<close>: one iteration of the solve loop leads from \<open>s\<close> to \<open>s'\<close> and the loop goes
  on; \<open>reaches\<close> is any number of such iterations.
\<close>

definition loopStep :: "simplexScheduler \<Rightarrow> simplexScheduler \<Rightarrow> bool" where
  "loopStep s s' \<longleftrightarrow> solveStep s = Continue s'"

definition reaches :: "simplexScheduler \<Rightarrow> simplexScheduler \<Rightarrow> bool" where
  "reaches = loopStep\<^sup>*\<^sup>*"

text \<open>
  The map \<open>opColumns\<close> after the first loop of \<open>buildTableau\<close>, the partition of the
  variable numbers \<open>0, \<dots>, n - 1\<close> into the two variable lists, and the dependences in the
  order in which \<open>buildTableau\<close> visits them.
\<close>

definition opColumnsOf :: "operation list \<Rightarrow> operation \<Rightarrow> nat" where
  "opColumnsOf ops = fst (assignColumns ops (\<lambda>opn. 0, [], 0))"

definition varsPartition :: "nat \<Rightarrow> simplexScheduler \<Rightarrow> bool" where
  "varsPartition n s \<longleftrightarrow>
     mset (nonBasicVariables s) + mset (basicVariables s) = mset [0..<n]"

definition allDependences :: "'a problem_scheme \<Rightarrow> dependence list" where
  "allDependences prob = concat (map (getDependences prob) (getOperations prob))"


text \<open>
  The linear program behind the tableau. An assignment \<open>x\<close> gives a value to every
  variable (the start times \<open>0, \<dots>, |ops| - 1\<close> and the slack variables after them). A
  row stands for the equation "basic variable = constant + T-coefficient * T - sum of
  the entries times the non-basic variables"; \<open>rowExpr\<close> is its right-hand side, and
  \<open>x\<close> is a solution when every constraint row holds.
\<close>

definition rowExpr :: "simplexScheduler \<Rightarrow> int \<Rightarrow> (nat \<Rightarrow> int) \<Rightarrow> nat \<Rightarrow> int" where
  "rowExpr s T x r =
     tableau s ! r ! parameter1Column + tableau s ! r ! parameterTColumn * T -
     (\<Sum>j<length (nonBasicVariables s).
        tableau s ! r ! (firstNonBasicVariableColumn + j) * x (nonBasicVariables s ! j))"

definition solution :: "simplexScheduler \<Rightarrow> int \<Rightarrow> (nat \<Rightarrow> int) \<Rightarrow> bool" where
  "solution s T x \<longleftrightarrow>
     (\<forall>i<length (basicVariables s).
        x (basicVariables s ! i) = rowExpr s T x (firstConstraintRow + i))"

text \<open>What \<open>pivot\<close> is called on, and the state it returns (lemma \<open>pivot_closed\<close>).\<close>

definition pivotable :: "simplexScheduler \<Rightarrow> nat \<Rightarrow> nat \<Rightarrow> bool" where
  "pivotable s pr pc \<longleftrightarrow>
     wellFormed s \<and> firstConstraintRow \<le> pr \<and> pr < nRows s \<and>
     firstNonBasicVariableColumn \<le> pc \<and> pc < nColumns s \<and> tableau s ! pr ! pc = - 1"

definition pivoted :: "simplexScheduler \<Rightarrow> nat \<Rightarrow> nat \<Rightarrow> simplexScheduler" where
  "pivoted s pr pc = swapVariables pr pc (s\<lparr>tableau := pivotTableau (tableau s) pr pc\<rparr>)"

text \<open>
  Dual feasibility (no objective-row entry of a non-basic variable is negative), the
  basic solution of a tableau (non-basic variables are 0) and non-negative assignments.
\<close>

definition dualFeasible :: "simplexScheduler \<Rightarrow> bool" where
  "dualFeasible s \<longleftrightarrow>
     (\<forall>j<length (nonBasicVariables s).
        0 \<le> tableau s ! objectiveRow ! (firstNonBasicVariableColumn + j))"

definition basicSolution :: "simplexScheduler \<Rightarrow> nat \<Rightarrow> int" where
  "basicSolution s v =
     (\<Sum>i<length (basicVariables s).
        if basicVariables s ! i = v then rowValue s (firstConstraintRow + i) else 0)"

definition nonNegative :: "nat \<Rightarrow> (nat \<Rightarrow> int) \<Rightarrow> bool" where
  "nonNegative n x \<longleftrightarrow> (\<forall>v<n. 0 \<le> x v)"

text \<open>
  The scheduling problem that the tableau encodes. A start time assignment respects the
  dependences at \<open>T\<close> when \<open>start dst - start src + distance * T \<ge> latency\<close> for each of
  them; an absent distance counts as 0. The dependences of a problem are well formed when
  its operations are pairwise different and the ends of its dependences are among them;
  the problem is well formed when the last operation is among them, too.
\<close>

definition distanceOf :: "'a cyclicProblem_scheme \<Rightarrow> dependence \<Rightarrow> nat" where
  "distanceOf prob dep = (case getDistance prob dep of Some d \<Rightarrow> d | None \<Rightarrow> 0)"

definition wellFormedDependences :: "'a problem_scheme \<Rightarrow> bool" where
  "wellFormedDependences prob \<longleftrightarrow>
     distinct (getOperations prob) \<and>
     (\<forall>dep\<in>set (allDependences prob).
        getSource dep \<in> set (getOperations prob) \<and> getDestination dep \<in> set (getOperations prob))"

definition wellFormedProblem :: "'a problem_scheme \<Rightarrow> operation \<Rightarrow> bool" where
  "wellFormedProblem prob lastOp \<longleftrightarrow>
     wellFormedDependences prob \<and> lastOp \<in> set (getOperations prob)"

text \<open>
  The latencies and distances whose tableau entries are what they stand for: the negation
  of a latency up to \<open>2\<^sup>3\<^sup>1\<close> and a distance below \<open>2\<^sup>3\<^sup>1\<close> are stored unchanged.
\<close>

definition latenciesInRange :: "'a problem_scheme \<Rightarrow> bool" where
  "latenciesInRange prob \<longleftrightarrow>
     (\<forall>dep\<in>set (allDependences prob). getLatency prob (getSource dep) \<le> 2147483648)"


definition noSelfDependence :: "'a problem_scheme \<Rightarrow> bool" where
  "noSelfDependence prob \<longleftrightarrow>
     (\<forall>dep\<in>set (allDependences prob). getSource dep \<noteq> getDestination dep)"

definition respectsDependences ::
  "'a problem_scheme \<Rightarrow> (dependence \<Rightarrow> nat) \<Rightarrow> int \<Rightarrow> (operation \<Rightarrow> nat) \<Rightarrow> bool" where
  "respectsDependences prob delta T start \<longleftrightarrow>
     (\<forall>dep\<in>set (allDependences prob).
        int (getLatency prob (getSource dep)) \<le>
          int (start (getDestination dep)) - int (start (getSource dep)) + int (delta dep) * T)"

definition varOf :: "'a problem_scheme \<Rightarrow> operation \<Rightarrow> nat" where
  "varOf prob opn = opColumnsOf (getOperations prob) opn - firstNonBasicVariableColumn"

text \<open>
  \<open>extendsFillConstraintRow fill prob entryT\<close>: on the rows that \<open>buildTableau\<close> passes in
  and for the dependences of the problem, \<open>fill\<close> is \<open>fillConstraintRow\<close> of the base class
  followed by a write of \<open>entryT dep\<close> into the column of \<open>T\<close>, as it is for both
  schedulers. \<open>encodes fill prob delta\<close>: moreover the entries are what they stand for, the
  entry of \<open>T\<close> being the distance \<open>delta dep\<close> and the latencies being in range.
\<close>

definition extendsFillConstraintRow ::
  "(int list \<Rightarrow> dependence \<Rightarrow> (operation \<Rightarrow> nat) \<Rightarrow> int list) \<Rightarrow> 'a problem_scheme \<Rightarrow>
   (dependence \<Rightarrow> int) \<Rightarrow> bool" where
  "extendsFillConstraintRow fill prob entryT \<longleftrightarrow>
     (\<forall>n f. (\<forall>opn. f opn \<noteq> parameterTColumn) \<longrightarrow>
        (\<forall>dep\<in>set (allDependences prob).
           fill (replicate (2 + n) 0) dep f =
             (fillConstraintRow prob (replicate (2 + n) 0) dep f)[parameterTColumn := entryT dep]))"

definition encodes ::
  "(int list \<Rightarrow> dependence \<Rightarrow> (operation \<Rightarrow> nat) \<Rightarrow> int list) \<Rightarrow> 'a problem_scheme \<Rightarrow>
   (dependence \<Rightarrow> nat) \<Rightarrow> bool" where
  "encodes fill prob delta \<longleftrightarrow>
     extendsFillConstraintRow fill prob (\<lambda>dep. int (delta dep)) \<and> latenciesInRange prob"


text \<open>The tableau built for a trial value \<open>T0\<close>, and the slack of a dependence.\<close>

definition builtTableau ::
  "(int list \<Rightarrow> dependence \<Rightarrow> (operation \<Rightarrow> nat) \<Rightarrow> int list) \<Rightarrow> 'a problem_scheme \<Rightarrow> operation \<Rightarrow> int \<Rightarrow>
   simplexScheduler" where
  "builtTableau fill prob lastOp T0 = buildTableau fill prob lastOp (newScheduler\<lparr>parameterT := T0\<rparr>)"

definition slackOf :: "'a problem_scheme \<Rightarrow> (dependence \<Rightarrow> nat) \<Rightarrow> int \<Rightarrow> (nat \<Rightarrow> int) \<Rightarrow> dependence \<Rightarrow> int" where
  "slackOf prob delta T x dep =
     x (varOf prob (getDestination dep)) - x (varOf prob (getSource dep)) +
     int (delta dep) * T - int (getLatency prob (getSource dep))"

text \<open>
  What the iterations of the solve loop preserve: the solutions and the objective of the
  linear program, and dual feasibility.
\<close>

definition lpInvariant :: "simplexScheduler \<Rightarrow> nat \<Rightarrow> simplexScheduler \<Rightarrow> bool" where
  "lpInvariant s0 n s \<longleftrightarrow>
     wellFormed s \<and> varsPartition n s \<and> dualFeasible s \<and>
     (\<forall>T x. solution s T x \<longleftrightarrow> solution s0 T x) \<and>
     (\<forall>T x. solution s0 T x \<longrightarrow> rowExpr s T x objectiveRow = rowExpr s0 T x objectiveRow)"


text \<open>
  The start time that \<open>storeStartTimes\<close> reads off a tableau, and the assignment of the
  linear program that belongs to given start times.
\<close>

definition startOf :: "'a problem_scheme \<Rightarrow> simplexScheduler \<Rightarrow> operation \<Rightarrow> nat" where
  "startOf prob s opn = nat (basicSolution s (varOf prob opn))"

definition assignmentOf ::
  "'a problem_scheme \<Rightarrow> (dependence \<Rightarrow> nat) \<Rightarrow> int \<Rightarrow> (operation \<Rightarrow> nat) \<Rightarrow> nat \<Rightarrow> int" where
  "assignmentOf prob delta T start v =
     (if v < length (getOperations prob) then int (start (getOperations prob ! v))
      else slackOf prob delta T (\<lambda>u. int (start (getOperations prob ! u)))
             (allDependences prob ! (v - length (getOperations prob))))"

text \<open>
  \<open>pathTo prob opn w\<close>: a chain of dependences ends in \<open>opn\<close> and its latencies add up to
  \<open>w\<close> (the empty chain has length 0). The critical-path length of \<open>opn\<close> is the largest
  such \<open>w\<close>.
\<close>

inductive pathTo :: "'a problem_scheme \<Rightarrow> operation \<Rightarrow> nat \<Rightarrow> bool" for prob where
  start: "opn \<in> set (getOperations prob) \<Longrightarrow> pathTo prob opn 0"
| step: "pathTo prob (getSource dep) w \<Longrightarrow> dep \<in> set (allDependences prob) \<Longrightarrow>
         pathTo prob (getDestination dep) (w + getLatency prob (getSource dep))"

definition criticalPathLength :: "'a problem_scheme \<Rightarrow> operation \<Rightarrow> nat \<Rightarrow> bool" where
  "criticalPathLength prob opn w \<longleftrightarrow> pathTo prob opn w \<and> (\<forall>w'. pathTo prob opn w' \<longrightarrow> w' \<le> w)"

definition dependenceGraph :: "'a problem_scheme \<Rightarrow> (operation \<times> operation) set" where
  "dependenceGraph prob = (\<lambda>dep. (getSource dep, getDestination dep)) ` set (allDependences prob)"

definition longestPathTo :: "'a problem_scheme \<Rightarrow> operation \<Rightarrow> nat" where
  "longestPathTo prob opn = Max {w. pathTo prob opn w}"


text \<open>
  Every variable is an edge of a graph, \<open>ends v\<close> being its two end nodes. The tension
  of an edge under a node potential \<open>p\<close> is the difference of \<open>p\<close> at its ends, and two
  nodes are linked in a set of edges when a chain of these edges, in either direction,
  joins them.
\<close>

definition tension :: "(nat \<Rightarrow> nat \<times> nat) \<Rightarrow> (nat \<Rightarrow> int) \<Rightarrow> nat \<Rightarrow> int" where
  "tension ends p v = p (fst (ends v)) - p (snd (ends v))"

definition links :: "(nat \<Rightarrow> nat \<times> nat) \<Rightarrow> nat set \<Rightarrow> (nat \<times> nat) set" where
  "links ends E = {(a, b). \<exists>v\<in>E. (a, b) = ends v \<or> (b, a) = ends v}"

definition linked :: "(nat \<Rightarrow> nat \<times> nat) \<Rightarrow> nat set \<Rightarrow> nat \<Rightarrow> nat \<Rightarrow> bool" where
  "linked ends E a b \<longleftrightarrow> (a, b) \<in> (links ends E)\<^sup>*"

text \<open>
  The constraint region of a tableau is a network matrix: each non-basic-variable column
  is given by a node potential; its entry in the row of a basic variable is the tension
  of that variable, its own non-basic variable has tension \<open>-1\<close>, and the other non-basic
  variables have tension \<open>0\<close>.
\<close>

definition cutColumns :: "(nat \<Rightarrow> nat \<times> nat) \<Rightarrow> simplexScheduler \<Rightarrow> bool" where
  "cutColumns ends s \<longleftrightarrow>
     (\<forall>j<length (nonBasicVariables s). \<exists>p.
        (\<forall>i<length (basicVariables s).
           tableau s ! (firstConstraintRow + i) ! (firstNonBasicVariableColumn + j) =
             tension ends p (basicVariables s ! i)) \<and>
        (\<forall>j'<length (nonBasicVariables s).
           tension ends p (nonBasicVariables s ! j') = (if j' = j then - 1 else 0)))"

text \<open>
  The non-basic variables link every end of every variable to the node \<open>rootNode\<close>.
\<close>

definition spanning :: "(nat \<Rightarrow> nat \<times> nat) \<Rightarrow> nat \<Rightarrow> nat \<Rightarrow> simplexScheduler \<Rightarrow> bool" where
  "spanning ends rootNode n s \<longleftrightarrow>
     (\<forall>v<n. linked ends (set (nonBasicVariables s)) (fst (ends v)) rootNode \<and>
            linked ends (set (nonBasicVariables s)) (snd (ends v)) rootNode)"

text \<open>
  What the iterations of the solve loop preserve of the tableau's graph; it implies that
  the entries of the constraint region are \<open>-1\<close>, \<open>0\<close> or \<open>1\<close>.
\<close>

definition networkInvariant ::
  "(nat \<Rightarrow> nat \<times> nat) \<Rightarrow> nat \<Rightarrow> nat \<Rightarrow> simplexScheduler \<Rightarrow> bool" where
  "networkInvariant ends rootNode n s \<longleftrightarrow>
     wellFormed s \<and> varsPartition n s \<and> cutColumns ends s \<and> spanning ends rootNode n s"

text \<open>
  The graph behind the tableau of a problem with \<open>N\<close> operations: its nodes are the
  operations' columns \<open>0, \<dots>, N - 1\<close> and one more node \<open>N\<close>. The variable of an
  operation joins \<open>N\<close> to the operation's node, and the slack variable of a dependence
  joins the node of its source to the node of its destination, where \<open>N\<close> stands in for
  an operation without a column of its own and for the source of a dependence whose
  \<open>1\<close> was overwritten by the \<open>-1\<close> of its destination.
\<close>

definition variableEnds :: "'a problem_scheme \<Rightarrow> nat \<Rightarrow> nat \<times> nat" where
  "variableEnds prob v =
     (let ops = getOperations prob; N = length ops in
      if v < N then (N, v)
      else
        let dep = allDependences prob ! (v - N);
            cs = opColumnsOf ops (getSource dep);
            cd = opColumnsOf ops (getDestination dep)
        in (if firstNonBasicVariableColumn \<le> cs \<and> cs \<noteq> cd then cs - firstNonBasicVariableColumn else N,
            if firstNonBasicVariableColumn \<le> cd then cd - firstNonBasicVariableColumn else N))"

text \<open>
  A well-formed state with unit entries that no run reaches: the pivot on the \<open>-1\<close> of
  its first constraint row produces the entry 2.
\<close>

definition unreachedState :: simplexScheduler where
  "unreachedState =
     \<lparr>parameterT = 0, tableau = [[0, 0, 0, 0], [0, 0, - 1, 1], [0, 0, 1, 1]],
      implicitBasicVariableColumnVector = [0, 0, 0],
      nonBasicVariables = [0, 1], basicVariables = [2, 3], nRows = 3, nColumns = 4\<rparr>"

text \<open>
  \<open>dependenceWalk E u p v\<close>: the dependences \<open>p\<close>, all of them in \<open>E\<close>, form a chain from the
  operation \<open>u\<close> to the operation \<open>v\<close>, each starting where the one before it ends. A
  dependence cycle of a problem is a non-empty chain that returns to where it starts.
\<close>

fun dependenceWalk :: "dependence set \<Rightarrow> operation \<Rightarrow> dependence list \<Rightarrow> operation \<Rightarrow> bool" where
  "dependenceWalk E u [] v \<longleftrightarrow> u = v"
| "dependenceWalk E u (dep # p) v \<longleftrightarrow>
     dep \<in> E \<and> getSource dep = u \<and> dependenceWalk E (getDestination dep) p v"

definition dependenceCycle :: "'a problem_scheme \<Rightarrow> dependence list \<Rightarrow> bool" where
  "dependenceCycle prob c \<longleftrightarrow>
     c \<noteq> [] \<and> (\<exists>u. dependenceWalk (set (allDependences prob)) u c u)"

text \<open>The latency sum and the distance sum of a chain of dependences.\<close>

definition latencySum :: "'a problem_scheme \<Rightarrow> dependence list \<Rightarrow> int" where
  "latencySum prob c = (\<Sum>dep\<leftarrow>c. int (getLatency prob (getSource dep)))"

definition distanceSum :: "(dependence \<Rightarrow> nat) \<Rightarrow> dependence list \<Rightarrow> int" where
  "distanceSum delta c = (\<Sum>dep\<leftarrow>c. int (delta dep))"

text \<open>The latency sum of a cycle divided by its distance sum, rounded up.\<close>

definition cycleRatio :: "'a problem_scheme \<Rightarrow> (dependence \<Rightarrow> nat) \<Rightarrow> dependence list \<Rightarrow> int" where
  "cycleRatio prob delta c = \<lceil>real_of_int (latencySum prob c) / real_of_int (distanceSum delta c)\<rceil>"

section \<open>The examples of the specification\<close>

text \<open>
  A single operation \<open>A = 0\<close> with the dependence \<open>A \<rightarrow> A\<close> of latency 4 and distance 1.
\<close>

definition selfArc :: cyclicProblem where
  "selfArc =
     \<lparr>getOperations = [0],
      getDependences = (\<lambda>opn. if opn = 0 then [Dependence 0 0] else []),
      getLatency = (\<lambda>opn. 4),
      startTime = (\<lambda>opn. None),
      getDistance = (\<lambda>dep. Some 1),
      initiationInterval = None\<rparr>"

text \<open>
  Operations \<open>A = 0\<close>, \<open>B = 1\<close>, \<open>C = 2\<close> with \<open>A \<rightarrow> B\<close> (latency 2) and
  \<open>B \<rightarrow> C\<close> (latency 3). The latency of a dependence is the latency of its source.
\<close>

definition chain3 :: problem where
  "chain3 =
     \<lparr>getOperations = [0, 1, 2],
      getDependences = (\<lambda>opn. if opn = 1 then [Dependence 0 1]
                               else if opn = 2 then [Dependence 1 2] else []),
      getLatency = (\<lambda>opn. if opn = 0 then 2 else if opn = 1 then 3 else 0),
      startTime = (\<lambda>opn. None)\<rparr>"

text \<open>Operations \<open>A = 0\<close>, \<open>B = 1\<close> with \<open>A \<rightarrow> B\<close> and \<open>B \<rightarrow> A\<close>, both of latency 5.\<close>

definition twoCycle :: problem where
  "twoCycle =
     \<lparr>getOperations = [0, 1],
      getDependences = (\<lambda>opn. if opn = 0 then [Dependence 1 0]
                               else if opn = 1 then [Dependence 0 1] else []),
      getLatency = (\<lambda>opn. 5),
      startTime = (\<lambda>opn. None)\<rparr>"

text \<open>
  Operations \<open>A = 0\<close>, \<open>B = 1\<close> with \<open>A \<rightarrow> B\<close>, where \<open>A\<close> has the latency \<open>2\<^sup>3\<^sup>2 - 1\<close>.
\<close>

definition hugeLatency :: problem where
  "hugeLatency =
     \<lparr>getOperations = [0, 1],
      getDependences = (\<lambda>opn. if opn = 1 then [Dependence 0 1] else []),
      getLatency = (\<lambda>opn. if opn = 0 then 4294967295 else 0),
      startTime = (\<lambda>opn. None)\<rparr>"



text \<open>What a caller observes of a run: the result, and the properties written.\<close>

definition observe ::
  "('p \<Rightarrow> 'o) \<Rightarrow> (error + LogicalResult \<times> 'p) option \<Rightarrow> (error + LogicalResult \<times> 'o) option" where
  "observe f = map_option (map_sum id (\<lambda>(r, p). (r, f p)))"

text \<open>
  Operations \<open>A = 0\<close>, \<open>B = 1\<close> with \<open>B \<rightarrow> A\<close> (latency 1, distance 1) and \<open>A \<rightarrow> B\<close>
  (latency 3, no distance): a recurrence of latency 4 over one iteration.
\<close>

definition recurrence :: cyclicProblem where
  "recurrence =
     \<lparr>getOperations = [0, 1],
      getDependences = (\<lambda>opn. if opn = 0 then [Dependence 1 0]
                               else if opn = 1 then [Dependence 0 1] else []),
      getLatency = (\<lambda>opn. if opn = 0 then 3 else 1),
      startTime = (\<lambda>opn. None),
      getDistance = (\<lambda>dep. if dep = Dependence 1 0 then Some 1 else None),
      initiationInterval = None\<rparr>"

text \<open>The tableaus that the two schedulers build for a problem.\<close>

definition initialTableau :: "problem \<Rightarrow> operation \<Rightarrow> simplexScheduler" where
  "initialTableau prob lastOp =
     buildTableau (fillConstraintRow prob) prob lastOp (newScheduler\<lparr>parameterT := 0\<rparr>)"

definition cyclicInitialTableau :: "cyclicProblem \<Rightarrow> operation \<Rightarrow> simplexScheduler" where
  "cyclicInitialTableau prob lastOp =
     buildTableau (cyclicFillConstraintRow prob) prob lastOp (newScheduler\<lparr>parameterT := 1\<rparr>)"

text \<open>The state after one more iteration of the solve loop (the same state if it returns).\<close>

definition nextState :: "simplexScheduler \<Rightarrow> simplexScheduler" where
  "nextState s = (case solveStep s of Continue s' \<Rightarrow> s' | Return r \<Rightarrow> s | Abort e \<Rightarrow> s)"

section \<open>Runs of the examples\<close>

lemma chain3_run:
  "observe (\<lambda>p. map (startTime p) [0, 1, 2]) (schedule chain3 2)
     = Some (Inr (success, [Some 0, Some 2, Some 5]))"
  by code_simp

lemma twoCycle_run:
  "observe (\<lambda>p. map (startTime p) [0, 1]) (schedule twoCycle 1) = Some (Inr (failure, [None, None]))"
  by code_simp

text \<open>
  C1. On the single operation with the self-dependence of latency 4 and distance 1 the
  cyclic scheduler succeeds, but it reports the initiation interval 1 and the start time
  3, not 4 and 0: \<open>fillConstraintRow\<close> writes the coefficient \<open>1\<close> of the source and
  then the coefficient \<open>-1\<close> of the destination into the same column, so that the row
  encodes \<open>start A \<ge> 4 - T\<close> instead of \<open>0 \<ge> 4 - T\<close>.
\<close>

theorem selfArc_reports_interval_1:
  "observe (\<lambda>p. (initiationInterval p, startTime p 0)) (cyclicSchedule selfArc 0)
     = Some (Inr (success, Some 1, Some 3))"
  by code_simp

section \<open>Pivot row selection\<close>

lemma findPivotRowLoop_find:
  "findPivotRowLoop tab T rows = List.find (\<lambda>row. tab ! row ! 0 + tab ! row ! 1 * T < 0) rows"
  by (induction rows) simp_all

lemma find_upt_Some:
  "List.find P [a..<b] = Some r \<longleftrightarrow> a \<le> r \<and> r < b \<and> P r \<and> (\<forall>r'. a \<le> r' \<and> r' < r \<longrightarrow> \<not> P r')"
proof
  assume "List.find P [a..<b] = Some r"
  then obtain i where i: "i < length [a..<b]" "P ([a..<b] ! i)" "r = [a..<b] ! i"
    "\<forall>j<i. \<not> P ([a..<b] ! j)"
    unfolding find_Some_iff by blast
  have r: "r = a + i" "a + i < b" using i by auto
  have "\<not> P r'" if "a \<le> r'" "r' < r" for r'
  proof -
    have "r' - a < i" using that r by auto
    then have "\<not> P ([a..<b] ! (r' - a))" using i(4) by blast
    moreover have "[a..<b] ! (r' - a) = r'" using that r by auto
    ultimately show ?thesis by simp
  qed
  then show "a \<le> r \<and> r < b \<and> P r \<and> (\<forall>r'. a \<le> r' \<and> r' < r \<longrightarrow> \<not> P r')"
    using i r by auto
next
  assume h: "a \<le> r \<and> r < b \<and> P r \<and> (\<forall>r'. a \<le> r' \<and> r' < r \<longrightarrow> \<not> P r')"
  have "r - a < length [a..<b]" "[a..<b] ! (r - a) = r" using h by auto
  moreover have "\<forall>j<r - a. \<not> P ([a..<b] ! j)" using h by auto
  ultimately show "List.find P [a..<b] = Some r"
    unfolding find_Some_iff using h by metis
qed

lemma find_upt_None:
  "List.find P [a..<b] = None \<longleftrightarrow> (\<forall>r. a \<le> r \<and> r < b \<longrightarrow> \<not> P r)"
  by (auto simp: find_None_iff)

lemma findPivotRow_iff:
  "(findPivotRow s = Some r \<longleftrightarrow>
      firstConstraintRow \<le> r \<and> r < nRows s \<and> rowValue s r < 0 \<and>
      (\<forall>r'. firstConstraintRow \<le> r' \<and> r' < r \<longrightarrow> 0 \<le> rowValue s r')) \<and>
   (findPivotRow s = None \<longleftrightarrow>
      (\<forall>r. firstConstraintRow \<le> r \<and> r < nRows s \<longrightarrow> 0 \<le> rowValue s r))"
  unfolding findPivotRow_def findPivotRowLoop_find find_upt_Some find_upt_None rowValue_def
  by (simp add: mult.commute not_less)

text \<open>
  C7. \<open>findPivotRow\<close> returns the smallest constraint row whose value under the current
  \<open>parameterT\<close> is negative, and none exactly when no constraint row has a negative value.
\<close>

theorem findPivotRow_spec:
  "(findPivotRow s = Some r \<longleftrightarrow>
      firstConstraintRow \<le> r \<and> r < nRows s \<and> rowValue s r < 0 \<and>
      (\<forall>r'. firstConstraintRow \<le> r' \<and> r' < r \<longrightarrow> 0 \<le> rowValue s r')) \<and>
   (findPivotRow s = None \<longleftrightarrow>
      (\<forall>r. firstConstraintRow \<le> r \<and> r < nRows s \<longrightarrow> 0 \<le> rowValue s r))"
  by (rule findPivotRow_iff)

theorem findPivotRow_spec_witness:
  "findPivotRow (initialTableau chain3 2) = Some 1 \<and> rowValue (initialTableau chain3 2) 1 < 0"
proof -
  have "findPivotRow (initialTableau chain3 2) = Some 1" by code_simp
  then show ?thesis using findPivotRow_spec [of "initialTableau chain3 2" 1] by blast
qed

section \<open>Growing the initiation interval\<close>








section \<open>Pivot column selection\<close>

lemma leftmostMax_skip_old:
  assumes "f c0 < f col" "c0 < col"
  shows "leftmostMax f (insert col (insert c0 S)) c \<longleftrightarrow> leftmostMax f (insert col S) c"
  using assms unfolding leftmostMax_def by (auto; force)

lemma leftmostMax_skip_new:
  assumes "f col \<le> f c0" "c0 < col" "\<forall>c\<in>S. col < c"
  shows "leftmostMax f (insert col (insert c0 S)) c \<longleftrightarrow> leftmostMax f (insert c0 S) c"
  using assms unfolding leftmostMax_def by (auto; force)

lemma findPivotColumnLoop_spec:
  assumes "sorted_wrt (<) cols"
    and "\<forall>c\<in>set cols. tab ! pivotRow ! c < 0 \<longrightarrow> tab ! pivotRow ! c = - 1"
    and "maxQuot = map_option (\<lambda>c. - (tab ! objectiveRow ! c)) pivotCol"
    and "\<forall>c0\<in>set_option pivotCol. \<forall>c\<in>set cols. c0 < c"
  shows "\<exists>res. findPivotColumnLoop tab pivotRow cols maxQuot pivotCol = Inr res \<and>
      (res = None \<longleftrightarrow> set_option pivotCol \<union> {c \<in> set cols. tab ! pivotRow ! c < 0} = {}) \<and>
      (\<forall>c. res = Some c \<longleftrightarrow>
         leftmostMax (\<lambda>c. - (tab ! objectiveRow ! c))
           (set_option pivotCol \<union> {c \<in> set cols. tab ! pivotRow ! c < 0}) c)"
  using assms
proof (induction cols arbitrary: maxQuot pivotCol)
  case Nil
  then show ?case by (cases pivotCol) (auto simp: leftmostMax_def)
next
  case (Cons col cols)
  let ?f = "\<lambda>c. - (tab ! objectiveRow ! c)"
  let ?C = "{c \<in> set cols. tab ! pivotRow ! c < 0}"
  have sorted: "sorted_wrt (<) cols" and lt: "\<forall>c\<in>set cols. col < c"
    using Cons.prems(1) by auto
  have neg1: "\<forall>c\<in>set cols. tab ! pivotRow ! c < 0 \<longrightarrow> tab ! pivotRow ! c = - 1"
    using Cons.prems(2) by simp
  show ?case
  proof (cases "tab ! pivotRow ! col < 0")
    case False
    have set_eq: "{c \<in> set (col # cols). tab ! pivotRow ! c < 0} = ?C" using False by auto
    have "\<forall>c0\<in>set_option pivotCol. \<forall>c\<in>set cols. c0 < c" using Cons.prems(4) by simp
    from Cons.IH [OF sorted neg1 Cons.prems(3) this] show ?thesis
      using False unfolding set_eq by simp
  next
    case True
    then have m1: "tab ! pivotRow ! col = - 1" using Cons.prems(2) by simp
    have set_eq: "{c \<in> set (col # cols). tab ! pivotRow ! c < 0} = insert col ?C"
      using True by auto
    show ?thesis
    proof (cases "maxQuot = None \<or> ?f col > the maxQuot")
      case take: True
      have a3: "Some (?f col) = map_option ?f (Some col)" by simp
      have a4: "\<forall>c0\<in>set_option (Some col). \<forall>c\<in>set cols. c0 < c" using lt by simp
      from Cons.IH [OF sorted neg1 a3 a4] obtain res where
        res: "findPivotColumnLoop tab pivotRow cols (Some (?f col)) (Some col) = Inr res"
          "res = None \<longleftrightarrow> set_option (Some col) \<union> ?C = {}"
          "\<forall>c. res = Some c \<longleftrightarrow> leftmostMax ?f (set_option (Some col) \<union> ?C) c"
        by blast
      have run: "findPivotColumnLoop tab pivotRow (col # cols) maxQuot pivotCol = Inr res"
        using take m1 res(1) by simp
      have "leftmostMax ?f (set_option pivotCol \<union> insert col ?C) c \<longleftrightarrow>
            leftmostMax ?f (insert col ?C) c" for c
      proof (cases pivotCol)
        case None
        then show ?thesis by simp
      next
        case (Some c0)
        then have "maxQuot = Some (?f c0)" using Cons.prems(3) by simp
        then have "?f c0 < ?f col" using take by simp
        moreover have "c0 < col" using Cons.prems(4) Some by simp
        ultimately show ?thesis using Some leftmostMax_skip_old [of ?f c0 col ?C c] by simp
      qed
      note eq = this
      show ?thesis unfolding set_eq
      proof (intro exI conjI allI)
        show "findPivotColumnLoop tab pivotRow (col # cols) maxQuot pivotCol = Inr res"
          by (rule run)
        show "res = None \<longleftrightarrow> set_option pivotCol \<union> insert col ?C = {}"
          using res(2) by simp
        show "res = Some c \<longleftrightarrow> leftmostMax ?f (set_option pivotCol \<union> insert col ?C) c" for c
          using res(3) eq [of c] by simp
      qed
    next
      case keep: False
      then obtain c0 where c0: "pivotCol = Some c0" "maxQuot = Some (?f c0)" "?f col \<le> ?f c0"
        using Cons.prems(3) by (cases pivotCol) auto
      have c0col: "c0 < col" using Cons.prems(4) c0(1) by simp
      have a4: "\<forall>c0\<in>set_option pivotCol. \<forall>c\<in>set cols. c0 < c" using Cons.prems(4) by simp
      from Cons.IH [OF sorted neg1 Cons.prems(3) a4] obtain res where
        res: "findPivotColumnLoop tab pivotRow cols maxQuot pivotCol = Inr res"
          "res = None \<longleftrightarrow> set_option pivotCol \<union> ?C = {}"
          "\<forall>c. res = Some c \<longleftrightarrow> leftmostMax ?f (set_option pivotCol \<union> ?C) c"
        by blast
      have run: "findPivotColumnLoop tab pivotRow (col # cols) maxQuot pivotCol = Inr res"
        using keep m1 res(1) by auto
      have "\<forall>c\<in>?C. col < c" using lt by simp
      then have "leftmostMax ?f (insert col (insert c0 ?C)) c \<longleftrightarrow> leftmostMax ?f (insert c0 ?C) c" for c
        using leftmostMax_skip_new [OF c0(3) c0col] by blast
      then have "leftmostMax ?f (set_option pivotCol \<union> insert col ?C) c \<longleftrightarrow>
            leftmostMax ?f (set_option pivotCol \<union> ?C) c" for c
        using c0(1) by simp
      note eq = this
      show ?thesis unfolding set_eq
      proof (intro exI conjI allI)
        show "findPivotColumnLoop tab pivotRow (col # cols) maxQuot pivotCol = Inr res"
          by (rule run)
        show "res = None \<longleftrightarrow> set_option pivotCol \<union> insert col ?C = {}"
          using res(2) c0(1) by simp
        show "res = Some c \<longleftrightarrow> leftmostMax ?f (set_option pivotCol \<union> insert col ?C) c" for c
          using res(3) eq [of c] by simp
      qed
    qed
  qed
qed

lemma findPivotColumnLoop_abort:
  assumes "c \<in> set cols" "tab ! pivotRow ! c < 0" "tab ! pivotRow ! c \<noteq> - 1"
  shows "findPivotColumnLoop tab pivotRow cols maxQuot pivotCol = Inl AssertionFailure"
  using assms by (induction cols arbitrary: maxQuot pivotCol) (auto simp: Let_def)

lemma findPivotColumn_result:
  assumes "\<forall>c\<in>pivotCandidates s pivotRow. tableau s ! pivotRow ! c = - 1"
  shows "\<exists>res. findPivotColumn s pivotRow = Inr res \<and>
      (res = None \<longleftrightarrow> pivotCandidates s pivotRow = {}) \<and>
      (\<forall>c. res = Some c \<longleftrightarrow>
         c \<in> pivotCandidates s pivotRow \<and>
         (\<forall>c'\<in>pivotCandidates s pivotRow.
            - (tableau s ! objectiveRow ! c') \<le> - (tableau s ! objectiveRow ! c)) \<and>
         (\<forall>c'\<in>pivotCandidates s pivotRow.
            c' < c \<longrightarrow> - (tableau s ! objectiveRow ! c') < - (tableau s ! objectiveRow ! c)))"
proof -
  let ?cols = "[firstNonBasicVariableColumn..<nColumns s]"
  have cand: "pivotCandidates s pivotRow = set_option None \<union> {c \<in> set ?cols. tableau s ! pivotRow ! c < 0}"
    by (auto simp: pivotCandidates_def)
  have 1: "sorted_wrt (<) ?cols" by simp
  have 2: "\<forall>c\<in>set ?cols. tableau s ! pivotRow ! c < 0 \<longrightarrow> tableau s ! pivotRow ! c = - 1"
    using assms by (auto simp: pivotCandidates_def)
  have 3: "None = map_option (\<lambda>c. - (tableau s ! objectiveRow ! c)) None" by simp
  have 4: "\<forall>c0\<in>set_option None. \<forall>c\<in>set ?cols. c0 < c" by simp
  show ?thesis
    using findPivotColumnLoop_spec [OF 1 2 3 4]
    unfolding findPivotColumn_def cand [symmetric] leftmostMax_def by simp
qed

lemma findPivotColumn_abort:
  assumes "c \<in> pivotCandidates s pivotRow" "tableau s ! pivotRow ! c \<noteq> - 1"
  shows "findPivotColumn s pivotRow = Inl AssertionFailure"
  unfolding findPivotColumn_def
  by (rule findPivotColumnLoop_abort [of c]) (use assms in \<open>auto simp: pivotCandidates_def\<close>)





section \<open>The pivot in closed form\<close>

lemma fold_update_each:
  "k \<le> length xs \<Longrightarrow>
   fold (\<lambda>i xs. xs[i := g i (xs ! i)]) [0..<k] xs =
     map (\<lambda>i. if i < k then g i (xs ! i) else xs ! i) [0..<length xs]"
proof (induction k)
  case 0
  then show ?case by (simp add: map_nth)
next
  case (Suc k)
  then have IH: "fold (\<lambda>i xs. xs[i := g i (xs ! i)]) [0..<k] xs =
     map (\<lambda>i. if i < k then g i (xs ! i) else xs ! i) [0..<length xs]" by simp
  show ?case
    unfolding upt_Suc_append [OF le0] fold_append comp_def IH
    using Suc.prems by (auto intro!: nth_equalityI simp: nth_list_update)
qed

lemma fold_update_row:
  "t < length tab \<Longrightarrow> src \<noteq> t \<Longrightarrow>
   fold (\<lambda>col tab. tab[t := H col (tab ! src) (tab ! t)]) cols tab =
     tab[t := fold (\<lambda>col row. H col (tab ! src) row) cols (tab ! t)]"
  by (induction cols arbitrary: tab) simp_all

lemma fold_update_row_self:
  "t < length tab \<Longrightarrow>
   fold (\<lambda>col tab. tab[t := H col (tab ! t)]) cols tab = tab[t := fold H cols (tab ! t)]"
  by (induction cols arbitrary: tab) simp_all

lemma multiplyRow_closed:
  assumes "row < length (tableau s)" "length (tableau s ! row) = nColumns s" "factor \<noteq> 0"
  shows "multiplyRow s row factor =
     Inr (s\<lparr>tableau := (tableau s)[row := map (\<lambda>x. x * factor) (tableau s ! row)],
            implicitBasicVariableColumnVector :=
              (implicitBasicVariableColumnVector s)
                [row := implicitBasicVariableColumnVector s ! row * factor]\<rparr>)"
proof -
  have "fold (\<lambda>col tab. tab[row := (tab ! row)[col := tab ! row ! col * factor]])
          [0..<nColumns s] (tableau s) =
        (tableau s)[row := fold (\<lambda>col r. r[col := r ! col * factor]) [0..<nColumns s] (tableau s ! row)]"
    using fold_update_row_self [OF assms(1), of "\<lambda>col r. r[col := r ! col * factor]"] by simp
  also have "fold (\<lambda>col r. r[col := r ! col * factor]) [0..<nColumns s] (tableau s ! row) =
      map (\<lambda>x. x * factor) (tableau s ! row)"
    using fold_update_each [of "nColumns s" "tableau s ! row" "\<lambda>i x. x * factor"] assms(2)
    by (auto intro!: nth_equalityI)
  finally show ?thesis using assms(3) by (simp add: multiplyRow_def)
qed

lemma addMultipleOfRow_closed:
  assumes "targetRow < length (tableau s)" "length (tableau s ! targetRow) = nColumns s"
    "factor \<noteq> 0" "sourceRow \<noteq> targetRow"
  shows "addMultipleOfRow s sourceRow factor targetRow =
     Inr (s\<lparr>tableau := (tableau s)[targetRow :=
               map (\<lambda>c. tableau s ! targetRow ! c + tableau s ! sourceRow ! c * factor) [0..<nColumns s]],
            implicitBasicVariableColumnVector :=
              (implicitBasicVariableColumnVector s)
                [targetRow := implicitBasicVariableColumnVector s ! targetRow +
                   implicitBasicVariableColumnVector s ! sourceRow * factor]\<rparr>)"
proof -
  have "fold (\<lambda>col tab. tab[targetRow := (tab ! targetRow)
                  [col := tab ! targetRow ! col + tab ! sourceRow ! col * factor]])
          [0..<nColumns s] (tableau s) =
        (tableau s)[targetRow := fold (\<lambda>col r. r[col := r ! col + tableau s ! sourceRow ! col * factor])
            [0..<nColumns s] (tableau s ! targetRow)]"
    using fold_update_row [OF assms(1,4), of "\<lambda>col src r. r[col := r ! col + src ! col * factor]"]
    by simp
  also have "fold (\<lambda>col r. r[col := r ! col + tableau s ! sourceRow ! col * factor])
            [0..<nColumns s] (tableau s ! targetRow) =
      map (\<lambda>c. tableau s ! targetRow ! c + tableau s ! sourceRow ! c * factor) [0..<nColumns s]"
    using fold_update_each [of "nColumns s" "tableau s ! targetRow"
        "\<lambda>i x. x + tableau s ! sourceRow ! i * factor"] assms(2)
    by (auto intro!: nth_equalityI)
  finally show ?thesis using assms(3,4) by (simp add: addMultipleOfRow_def)
qed

lemma forEach_append:
  "forEach body (xs @ ys) s =
     (case forEach body xs s of Inl e \<Rightarrow> Inl e | Inr s' \<Rightarrow> forEach body ys s')"
  by (induction xs arbitrary: s) (auto split: sum.splits)

lemma eliminated_0: "eliminated s pivotRow pivotColumn 0 = s"
  by (simp add: eliminated_def eliminatedRows_def eliminatedImplicit_def map_nth)

lemma eliminatedRows_skip:
  "k = pivotRow \<or> (tableau s ! k ! pivotColumn = 0 \<and> length (tableau s ! k) = nColumns s) \<Longrightarrow>
   eliminatedRows s pivotRow pivotColumn (Suc k) = eliminatedRows s pivotRow pivotColumn k"
  unfolding eliminatedRows_def
  by (rule map_cong [OF refl]) (auto simp: less_Suc_eq intro!: nth_equalityI)

lemma eliminatedImplicit_skip:
  "k = pivotRow \<or> tableau s ! k ! pivotColumn = 0 \<Longrightarrow>
   eliminatedImplicit s pivotRow pivotColumn (Suc k) = eliminatedImplicit s pivotRow pivotColumn k"
  unfolding eliminatedImplicit_def
  by (rule map_cong [OF refl]) (auto simp: less_Suc_eq)

lemma eliminatedRows_Suc:
  "k \<noteq> pivotRow \<Longrightarrow> k < length (tableau s) \<Longrightarrow>
   eliminatedRows s pivotRow pivotColumn (Suc k) =
     (eliminatedRows s pivotRow pivotColumn k)
       [k := map (\<lambda>c. tableau s ! k ! c + tableau s ! pivotRow ! c * (- (tableau s ! k ! pivotColumn)))
                       [0..<nColumns s]]"
  unfolding eliminatedRows_def
  by (rule nth_equalityI) (simp_all add: nth_list_update less_Suc_eq)

lemma eliminatedImplicit_Suc:
  "k \<noteq> pivotRow \<Longrightarrow> k < length (implicitBasicVariableColumnVector s) \<Longrightarrow>
   eliminatedImplicit s pivotRow pivotColumn (Suc k) =
     (eliminatedImplicit s pivotRow pivotColumn k)
       [k := implicitBasicVariableColumnVector s ! k +
                     implicitBasicVariableColumnVector s ! pivotRow * (- (tableau s ! k ! pivotColumn))]"
  unfolding eliminatedImplicit_def
  by (rule nth_equalityI) (simp_all add: nth_list_update less_Suc_eq)

lemma eliminated_step:
  assumes len: "\<forall>row\<in>set (tableau s). length row = nColumns s"
    and imp: "length (implicitBasicVariableColumnVector s) = length (tableau s)"
    and k: "k < length (tableau s)" and pr: "pivotRow < length (tableau s)"
  shows "eliminateRow pivotRow pivotColumn k (eliminated s pivotRow pivotColumn k) =
     Inr (eliminated s pivotRow pivotColumn (Suc k))"
proof -
  let ?e = "eliminated s pivotRow pivotColumn k"
  have lenk: "length (tableau s ! k) = nColumns s" using len k by simp
  have rowk: "tableau ?e ! k = tableau s ! k"
    using k by (simp add: eliminated_def eliminatedRows_def)
  show ?thesis
  proof (cases "k = pivotRow \<or> tableau s ! k ! pivotColumn = 0")
    case True
    then have "eliminated s pivotRow pivotColumn (Suc k) = ?e"
      using eliminatedRows_skip [of k pivotRow s pivotColumn]
        eliminatedImplicit_skip [of k pivotRow s pivotColumn] lenk
      by (auto simp: eliminated_def)
    then show ?thesis using True rowk by (auto simp: eliminateRow_def)
  next
    case False
    have rowp: "tableau ?e ! pivotRow = tableau s ! pivotRow"
      using pr by (simp add: eliminated_def eliminatedRows_def)
    have impk: "implicitBasicVariableColumnVector ?e ! k = implicitBasicVariableColumnVector s ! k"
      using k imp by (simp add: eliminated_def eliminatedImplicit_def)
    have impp: "implicitBasicVariableColumnVector ?e ! pivotRow = implicitBasicVariableColumnVector s ! pivotRow"
      using pr imp by (simp add: eliminated_def eliminatedImplicit_def)
    have ncol: "nColumns ?e = nColumns s" by (simp add: eliminated_def)
    have 1: "k < length (tableau ?e)" using k by (simp add: eliminated_def eliminatedRows_def)
    have 2: "length (tableau ?e ! k) = nColumns ?e" using rowk lenk ncol by simp
    have 3: "- (tableau s ! k ! pivotColumn) \<noteq> 0" using False by simp
    have 4: "pivotRow \<noteq> k" using False by simp
    have "eliminateRow pivotRow pivotColumn k ?e =
        addMultipleOfRow ?e pivotRow (- (tableau s ! k ! pivotColumn)) k"
      using False rowk by (simp add: eliminateRow_def)
    also have "\<dots> = Inr (eliminated s pivotRow pivotColumn (Suc k))"
      unfolding addMultipleOfRow_closed [OF 1 2 3 4] rowk rowp impk impp ncol
      using False k imp
      by (simp add: eliminated_def eliminatedRows_Suc eliminatedImplicit_Suc)
    finally show ?thesis .
  qed
qed

lemma forEach_eliminateRow:
  assumes len: "\<forall>row\<in>set (tableau s). length row = nColumns s"
    and imp: "length (implicitBasicVariableColumnVector s) = length (tableau s)"
    and pr: "pivotRow < length (tableau s)"
  shows "k \<le> length (tableau s) \<Longrightarrow>
    forEach (eliminateRow pivotRow pivotColumn) [0..<k] s = Inr (eliminated s pivotRow pivotColumn k)"
proof (induction k)
  case 0
  then show ?case by (simp add: eliminated_0)
next
  case (Suc k)
  then have IH: "forEach (eliminateRow pivotRow pivotColumn) [0..<k] s =
      Inr (eliminated s pivotRow pivotColumn k)" and k: "k < length (tableau s)" by simp_all
  show ?case
    unfolding upt_Suc_append [OF le0] forEach_append IH
    using eliminated_step [OF len imp k pr] by simp
qed

lemma swappedRows_Suc:
  "k < length (tableau s) \<Longrightarrow>
   swappedRows s pivotColumn (Suc k) =
     (swappedRows s pivotColumn k)[k := (tableau s ! k)[pivotColumn := implicitBasicVariableColumnVector s ! k]]"
  unfolding swappedRows_def
  by (rule nth_equalityI) (simp_all add: nth_list_update less_Suc_eq)

lemma swappedImplicit_Suc:
  "k < length (implicitBasicVariableColumnVector s) \<Longrightarrow>
   swappedImplicit s (Suc k) = (swappedImplicit s k)[k := 0]"
  unfolding swappedImplicit_def
  by (rule nth_equalityI) (simp_all add: nth_list_update less_Suc_eq)

lemma fold_swapColumnEntry:
  assumes imp: "length (implicitBasicVariableColumnVector s) = length (tableau s)"
  shows "k \<le> length (tableau s) \<Longrightarrow>
    fold (swapColumnEntry pivotColumn) [0..<k] s =
      s\<lparr>tableau := swappedRows s pivotColumn k,
        implicitBasicVariableColumnVector := swappedImplicit s k\<rparr>"
proof (induction k)
  case 0
  then show ?case by (simp add: swappedRows_def swappedImplicit_def map_nth)
next
  case (Suc k)
  then have IH: "fold (swapColumnEntry pivotColumn) [0..<k] s =
      s\<lparr>tableau := swappedRows s pivotColumn k,
        implicitBasicVariableColumnVector := swappedImplicit s k\<rparr>"
    and k: "k < length (tableau s)" by simp_all
  have a: "swappedRows s pivotColumn k ! k = tableau s ! k"
    using k by (simp add: swappedRows_def)
  have b: "swappedImplicit s k ! k = implicitBasicVariableColumnVector s ! k"
    using k imp by (simp add: swappedImplicit_def)
  show ?case
    unfolding upt_Suc_append [OF le0] fold_append comp_def IH
    using k imp a b
    by (simp add: swapColumnEntry_def swappedRows_Suc swappedImplicit_Suc)
qed

lemma pivot_closed:
  assumes wf: "wellFormed s" and pr: "pivotRow < nRows s" and pc: "pivotColumn < nColumns s"
    and elem: "tableau s ! pivotRow ! pivotColumn = - 1"
  shows "pivot s pivotRow pivotColumn =
     Inr (swapVariables pivotRow pivotColumn
            (s\<lparr>tableau := pivotTableau (tableau s) pivotRow pivotColumn\<rparr>))"
proof -
  let ?n = "length (tableau s)"
  let ?m = "nColumns s"
  let ?tab = "tableau s"
  have n: "nRows s = ?n" and rows: "\<forall>row\<in>set ?tab. length row = ?m"
    and imp: "implicitBasicVariableColumnVector s = replicate ?n 0"
    using wf by (simp_all add: wellFormed_def)
  have prn: "pivotRow < ?n" using pr n by simp
  have lenrow: "length (?tab ! r) = ?m" if "r < ?n" for r using rows that by simp
  define s1 where "s1 = s\<lparr>implicitBasicVariableColumnVector :=
                  (implicitBasicVariableColumnVector s)[pivotRow := 1]\<rparr>"
  define s2 where "s2 = s1\<lparr>tableau := ?tab[pivotRow := map (\<lambda>x. x * (- 1)) (?tab ! pivotRow)],
            implicitBasicVariableColumnVector :=
              (implicitBasicVariableColumnVector s1)
                [pivotRow := implicitBasicVariableColumnVector s1 ! pivotRow * (- 1)]\<rparr>"
  have mul: "multiplyRow s1 pivotRow (- 1) = Inr s2"
    using multiplyRow_closed [of pivotRow s1 "- 1"] prn lenrow [OF prn]
    by (simp add: s1_def s2_def)
  have t2: "tableau s2 = ?tab[pivotRow := map (\<lambda>x. x * (- 1)) (?tab ! pivotRow)]"
    by (simp add: s2_def s1_def)
  have i2: "implicitBasicVariableColumnVector s2 = (replicate ?n 0)[pivotRow := - 1]"
    using prn by (simp add: s2_def s1_def imp)
  have n2: "nRows s2 = ?n" "nColumns s2 = ?m" "length (tableau s2) = ?n"
    using n by (simp_all add: s2_def s1_def)
  have rows2: "\<forall>row\<in>set (tableau s2). length row = nColumns s2"
    unfolding t2 n2 using rows lenrow [OF prn] by (auto dest!: set_update_subset_insert [THEN subsetD])
  have imp2: "length (implicitBasicVariableColumnVector s2) = length (tableau s2)"
    by (simp add: i2 t2)
  define s3 where "s3 = eliminated s2 pivotRow pivotColumn ?n"
  have elim: "forEach (eliminateRow pivotRow pivotColumn) [0..<nRows s2] s2 = Inr s3"
    unfolding s3_def n2(1)
    by (rule forEach_eliminateRow [OF rows2 imp2]) (simp_all add: n2 prn)
  have n3: "nRows s3 = ?n" "length (tableau s3) = ?n"
    "length (implicitBasicVariableColumnVector s3) = ?n"
    using n2 imp2 by (simp_all add: s3_def eliminated_def eliminatedRows_def eliminatedImplicit_def)
  have swap: "fold (swapColumnEntry pivotColumn) [0..<nRows s3] s3 =
      s3\<lparr>tableau := swappedRows s3 pivotColumn ?n,
        implicitBasicVariableColumnVector := swappedImplicit s3 ?n\<rparr>"
    unfolding n3(1) using fold_swapColumnEntry [of s3 ?n pivotColumn] n3 by simp
  have final_imp: "swappedImplicit s3 ?n = implicitBasicVariableColumnVector s"
    unfolding imp swappedImplicit_def n3 by (rule nth_equalityI) simp_all
  have final_tab: "swappedRows s3 pivotColumn ?n = pivotTableau ?tab pivotRow pivotColumn"
  proof (rule nth_equalityI)
    show "length (swappedRows s3 pivotColumn ?n) = length (pivotTableau ?tab pivotRow pivotColumn)"
      by (simp add: swappedRows_def pivotTableau_def n3)
  next
    fix r assume "r < length (swappedRows s3 pivotColumn ?n)"
    then have r: "r < ?n" by (simp add: swappedRows_def n3)
    have t3: "tableau s3 ! r = (if r \<noteq> pivotRow
        then map (\<lambda>c. ?tab ! r ! c + (- (?tab ! pivotRow ! c)) * (- (?tab ! r ! pivotColumn))) [0..<?m]
        else map (\<lambda>x. x * (- 1)) (?tab ! pivotRow))"
      using r prn lenrow [OF prn]
      by (auto simp: s3_def eliminated_def eliminatedRows_def n2 t2)
    have i3: "implicitBasicVariableColumnVector s3 ! r =
        (if r \<noteq> pivotRow then ?tab ! r ! pivotColumn else - 1)"
      using r prn by (auto simp: s3_def eliminated_def eliminatedImplicit_def n2 t2 i2)
    show "swappedRows s3 pivotColumn ?n ! r = pivotTableau ?tab pivotRow pivotColumn ! r"
    proof (rule nth_equalityI)
      show "length (swappedRows s3 pivotColumn ?n ! r) = length (pivotTableau ?tab pivotRow pivotColumn ! r)"
        using r lenrow [OF prn] lenrow [OF r]
        by (simp add: swappedRows_def pivotTableau_def n3 t3)
    next
      fix c assume "c < length (swappedRows s3 pivotColumn ?n ! r)"
      then have c: "c < ?m"
        using r lenrow [OF prn] by (simp add: swappedRows_def n3 t3 split: if_splits)
      show "swappedRows s3 pivotColumn ?n ! r ! c = pivotTableau ?tab pivotRow pivotColumn ! r ! c"
        using r c lenrow [OF prn] lenrow [OF r]
        by (simp add: swappedRows_def pivotTableau_def n3 t3 i3 nth_list_update)
    qed
  qed
  have "pivot s pivotRow pivotColumn =
      Inr (swapVariables pivotRow pivotColumn
            (s3\<lparr>tableau := swappedRows s3 pivotColumn ?n,
               implicitBasicVariableColumnVector := swappedImplicit s3 ?n\<rparr>))"
  proof -
    have t1: "tableau s1 = ?tab" by (simp add: s1_def)
    show ?thesis
      using elem mul elim swap by (simp add: pivot_def s1_def [symmetric] t1)
  qed
  also have "s3\<lparr>tableau := swappedRows s3 pivotColumn ?n,
               implicitBasicVariableColumnVector := swappedImplicit s3 ?n\<rparr> =
      s\<lparr>tableau := pivotTableau ?tab pivotRow pivotColumn\<rparr>"
    unfolding final_imp final_tab by (simp add: s3_def eliminated_def s2_def s1_def)
  finally show ?thesis .
qed

section \<open>The initial tableau and the iterations of the solve loop\<close>

lemma assignColumns_snoc:
  "assignColumns (ops @ [a]) st =
     (case assignColumns ops st of (f, nb, v) \<Rightarrow> (f(a := 2 + v), nb @ [v], v + 1))"
  by (simp add: assignColumns_def case_prod_beta)

lemma assignColumns_snd:
  "snd (assignColumns ops (f, nb, v)) = (nb @ [v..<v + length ops], v + length ops)"
proof (induction ops rule: rev_induct)
  case Nil
  then show ?case by (simp add: assignColumns_def)
next
  case (snoc a ops)
  then show ?case
    by (cases "assignColumns ops (f, nb, v)") (simp add: assignColumns_snoc)
qed

lemma opColumnsOf_Nil: "opColumnsOf [] = (\<lambda>opn. 0)"
  by (simp add: opColumnsOf_def assignColumns_def)

lemma opColumnsOf_snoc: "opColumnsOf (ops @ [a]) = (opColumnsOf ops)(a := 2 + length ops)"
proof -
  obtain f nb v where st: "assignColumns ops (\<lambda>opn. 0, [], 0) = (f, nb, v)"
    by (cases "assignColumns ops (\<lambda>opn. 0, [], 0)") auto
  have "v = length ops" using assignColumns_snd [of ops "\<lambda>opn. 0" "[]" 0] st by simp
  then show ?thesis by (simp add: opColumnsOf_def assignColumns_snoc st)
qed

lemma opColumnsOf_range:
  "opColumnsOf ops x = 0 \<or> (2 \<le> opColumnsOf ops x \<and> opColumnsOf ops x < 2 + length ops)"
proof (induction ops rule: rev_induct)
  case Nil
  then show ?case by (simp add: opColumnsOf_Nil)
next
  case (snoc a ops)
  then show ?case unfolding opColumnsOf_snoc by (cases "x = a") auto
qed

lemma opColumnsOf_notin: "x \<notin> set ops \<Longrightarrow> opColumnsOf ops x = 0"
proof (induction ops rule: rev_induct)
  case Nil
  then show ?case by (simp add: opColumnsOf_Nil)
next
  case (snoc a ops)
  then show ?case unfolding opColumnsOf_snoc by auto
qed

lemma opColumnsOf_nth:
  "distinct ops \<Longrightarrow> i < length ops \<Longrightarrow> opColumnsOf ops (ops ! i) = 2 + i"
proof (induction ops rule: rev_induct)
  case Nil
  then show ?case by simp
next
  case (snoc a ops)
  show ?case
  proof (cases "i < length ops")
    case True
    then have "ops ! i \<noteq> a" using snoc.prems(1) by auto
    then show ?thesis using True snoc unfolding opColumnsOf_snoc by (simp add: nth_append)
  next
    case False
    then have "i = length ops" using snoc.prems(2) by simp
    then show ?thesis unfolding opColumnsOf_snoc by simp
  qed
qed

lemma addConstraintRows_snoc:
  "addConstraintRows fill nCols opCols (deps @ [d]) st =
     (case addConstraintRows fill nCols opCols deps st of (tab, imp, basic, v) \<Rightarrow>
        (tab @ [fill (replicate nCols 0) d opCols], imp @ [0], basic @ [v], v + 1))"
  by (simp add: addConstraintRows_def case_prod_beta)

lemma addConstraintRows_closed:
  "addConstraintRows fill nCols opCols deps (tab, imp, basic, v) =
     (tab @ map (\<lambda>dep. fill (replicate nCols 0) dep opCols) deps,
      imp @ replicate (length deps) 0, basic @ [v..<v + length deps], v + length deps)"
proof (induction deps rule: rev_induct)
  case Nil
  then show ?case by (simp add: addConstraintRows_def)
next
  case (snoc d deps)
  then show ?case by (simp add: addConstraintRows_snoc replicate_append_same)
qed

lemma buildTableau_closed:
  "buildTableau fill prob lastOp (newScheduler\<lparr>parameterT := T\<rparr>) =
     \<lparr>parameterT = T,
      tableau = (replicate (2 + length (getOperations prob)) 0)
                  [opColumnsOf (getOperations prob) lastOp := 1] #
                map (\<lambda>dep. fill (replicate (2 + length (getOperations prob)) 0) dep
                       (opColumnsOf (getOperations prob))) (allDependences prob),
      implicitBasicVariableColumnVector = replicate (1 + length (allDependences prob)) 0,
      nonBasicVariables = [0..<length (getOperations prob)],
      basicVariables = [length (getOperations prob)..<
                          length (getOperations prob) + length (allDependences prob)],
      nRows = 1 + length (allDependences prob),
      nColumns = 2 + length (getOperations prob)\<rparr>"
proof -
  obtain f where f: "assignColumns (getOperations prob) (\<lambda>opn. 0, [], 0) =
      (f, [0..<length (getOperations prob)], length (getOperations prob))"
    using assignColumns_snd [of "getOperations prob" "\<lambda>opn. 0" "[]" 0]
    by (cases "assignColumns (getOperations prob) (\<lambda>opn. 0, [], 0)") auto
  have ff: "opColumnsOf (getOperations prob) = f" by (simp add: opColumnsOf_def f)
  have fields: "nonBasicVariables (newScheduler\<lparr>parameterT := T\<rparr>) = []"
    "tableau (newScheduler\<lparr>parameterT := T\<rparr>) = []"
    "implicitBasicVariableColumnVector (newScheduler\<lparr>parameterT := T\<rparr>) = []"
    "basicVariables (newScheduler\<lparr>parameterT := T\<rparr>) = []"
    by (simp_all add: newScheduler_def)
  show ?thesis
    unfolding buildTableau_def fields f Let_def prod.case append_Nil length_upt diff_zero
      addConstraintRows_closed allDependences_def [symmetric] ff [symmetric]
    by (simp add: newScheduler_def del: replicate_Suc replicate.simps list_update.simps) simp
qed

lemma length_fillConstraintRow [simp]:
  "length (fillConstraintRow prob row dep f) = length row"
  by (simp add: fillConstraintRow_def Let_def)

lemma length_cyclicFillConstraintRow [simp]:
  "length (cyclicFillConstraintRow prob row dep f) = length row"
  by (simp add: cyclicFillConstraintRow_def Let_def split: option.splits)

lemma wellFormed_buildTableau:
  assumes "\<And>row dep f. length (fill row dep f) = length row"
  shows "wellFormed (buildTableau fill prob lastOp (newScheduler\<lparr>parameterT := T\<rparr>))"
  unfolding buildTableau_closed wellFormed_def using assms
  by (auto simp del: replicate_Suc replicate.simps list_update.simps)



lemma varsPartition_buildTableau:
  "varsPartition (length (getOperations prob) + length (allDependences prob))
     (buildTableau fill prob lastOp (newScheduler\<lparr>parameterT := T\<rparr>))"
proof -
  have "[0..<length (getOperations prob) + length (allDependences prob)] =
      [0..<length (getOperations prob)] @
      [length (getOperations prob)..<length (getOperations prob) + length (allDependences prob)]"
    by (rule upt_add_eq_append [OF le0])
  then show ?thesis unfolding buildTableau_closed varsPartition_def by simp
qed

lemma findPivotColumn_None: "findPivotColumn s pr = Inr None \<longleftrightarrow> pivotCandidates s pr = {}"
proof
  assume a: "findPivotColumn s pr = Inr None"
  have "\<forall>c\<in>pivotCandidates s pr. tableau s ! pr ! c = - 1"
    using findPivotColumn_abort [of _ s pr] a by auto
  from findPivotColumn_result [OF this] a show "pivotCandidates s pr = {}" by auto
next
  assume a: "pivotCandidates s pr = {}"
  then have "\<forall>c\<in>pivotCandidates s pr. tableau s ! pr ! c = - 1" by simp
  from findPivotColumn_result [OF this] a show "findPivotColumn s pr = Inr None" by auto
qed

lemma findPivotColumn_Some:
  assumes "findPivotColumn s pr = Inr (Some pc)"
  shows "pc \<in> pivotCandidates s pr" "tableau s ! pr ! pc = - 1"
    "\<forall>c\<in>pivotCandidates s pr. tableau s ! pr ! c = - 1 \<and>
        tableau s ! objectiveRow ! pc \<le> tableau s ! objectiveRow ! c"
proof -
  have all: "\<forall>c\<in>pivotCandidates s pr. tableau s ! pr ! c = - 1"
    using findPivotColumn_abort [of _ s pr] assms by auto
  from findPivotColumn_result [OF this] assms
  have *: "pc \<in> pivotCandidates s pr \<and>
         (\<forall>c'\<in>pivotCandidates s pr.
            - (tableau s ! objectiveRow ! c') \<le> - (tableau s ! objectiveRow ! pc))"
    by auto
  show "pc \<in> pivotCandidates s pr" using * by simp
  then show "tableau s ! pr ! pc = - 1" using all by simp
  show "\<forall>c\<in>pivotCandidates s pr. tableau s ! pr ! c = - 1 \<and>
        tableau s ! objectiveRow ! pc \<le> tableau s ! objectiveRow ! c"
    using all * by auto
qed

lemma loopStep_cases:
  assumes "loopStep s s'"
  obtains (pivoted) pr pc where "findPivotRow s = Some pr" "findPivotColumn s pr = Inr (Some pc)"
      "pivot s pr pc = Inr s'"
  | (increased) pr where "findPivotRow s = Some pr" "findPivotColumn s pr = Inr None"
      "0 < tableau s ! pr ! parameterTColumn" "tableau s ! pr ! parameter1Column < 0"
      "s' = s\<lparr>parameterT :=
         increasedII (tableau s ! pr ! parameter1Column) (tableau s ! pr ! parameterTColumn)\<rparr>"
proof -
  have step: "solveStep s = Continue s'" using assms by (simp add: loopStep_def)
  show thesis
  proof (cases "findPivotRow s")
    case None
    then show ?thesis using step by (simp add: solveStep_def)
  next
    case (Some pr)
    show ?thesis
    proof (cases "findPivotColumn s pr")
      case (Inl e)
      then show ?thesis using step Some by (simp add: solveStep_def)
    next
      case (Inr res)
      show ?thesis
      proof (cases res)
        case None
        have "0 < tableau s ! pr ! parameterTColumn \<and> tableau s ! pr ! parameter1Column < 0 \<and>
          s' = s\<lparr>parameterT :=
            increasedII (tableau s ! pr ! parameter1Column) (tableau s ! pr ! parameterTColumn)\<rparr>"
          using step Some Inr None by (simp add: solveStep_def Let_def split: if_splits)
        then show ?thesis using increased [of pr] Some Inr None by simp
      next
        case (Some pc)
        have "pivot s pr pc = Inr s'"
          using step \<open>findPivotRow s = Some pr\<close> Inr Some
          by (simp add: solveStep_def split: sum.splits)
        then show ?thesis using pivoted [of pr pc] \<open>findPivotRow s = Some pr\<close> Inr Some by simp
      qed
    qed
  qed
qed

lemma findPivotRow_range:
  "findPivotRow s = Some pr \<Longrightarrow> firstConstraintRow \<le> pr \<and> pr < nRows s \<and> rowValue s pr < 0"
  using findPivotRow_iff [of s pr] by blast

lemma pivotCandidates_range:
  "pc \<in> pivotCandidates s pr \<Longrightarrow> firstNonBasicVariableColumn \<le> pc \<and> pc < nColumns s"
  by (simp add: pivotCandidates_def)

lemma loopStep_pivoted:
  assumes "wellFormed s" "findPivotRow s = Some pr" "findPivotColumn s pr = Inr (Some pc)"
    "pivot s pr pc = Inr s'"
  shows "s' = swapVariables pr pc (s\<lparr>tableau := pivotTableau (tableau s) pr pc\<rparr>)"
proof -
  have "pr < nRows s" using findPivotRow_range [OF assms(2)] by simp
  moreover have "pc < nColumns s"
    using findPivotColumn_Some(1) [OF assms(3)] pivotCandidates_range by blast
  ultimately show ?thesis
    using pivot_closed [OF assms(1) _ _ findPivotColumn_Some(2) [OF assms(3)]] assms(4) by simp
qed

lemma length_pivotTableau [simp]: "length (pivotTableau tab pr pc) = length tab"
  by (simp add: pivotTableau_def)

lemma length_pivotTableau_row [simp]:
  "r < length tab \<Longrightarrow> length (pivotTableau tab pr pc ! r) = length (tab ! r)"
  by (simp add: pivotTableau_def)

lemma wellFormed_pivoted:
  assumes "wellFormed s" "firstConstraintRow \<le> pr" "pr < nRows s"
    "firstNonBasicVariableColumn \<le> pc" "pc < nColumns s"
  shows "wellFormed (swapVariables pr pc (s\<lparr>tableau := pivotTableau (tableau s) pr pc\<rparr>))"
proof -
  have "\<forall>r<length (tableau s). length (tableau s ! r) = nColumns s"
    using assms(1) by (simp add: wellFormed_def)
  then show ?thesis
    using assms unfolding wellFormed_def swapVariables_def
    by (auto simp: Let_def in_set_conv_nth)
qed

lemma wellFormed_loopStep:
  assumes "wellFormed s" "loopStep s s'"
  shows "wellFormed s'"
  using assms(2)
proof (cases rule: loopStep_cases)
  case (pivoted pr pc)
  have "firstConstraintRow \<le> pr \<and> pr < nRows s" using findPivotRow_range [OF pivoted(1)] by simp
  moreover have "firstNonBasicVariableColumn \<le> pc \<and> pc < nColumns s"
    using findPivotColumn_Some(1) [OF pivoted(2)] pivotCandidates_range by blast
  ultimately show ?thesis
    unfolding loopStep_pivoted [OF assms(1) pivoted] using wellFormed_pivoted [OF assms(1)] by blast
next
  case (increased pr)
  then show ?thesis using assms(1) by (simp add: wellFormed_def)
qed

lemma reaches_invariant:
  assumes "reaches s s'" "P s" "\<And>a b. P a \<Longrightarrow> loopStep a b \<Longrightarrow> P b"
  shows "P s'"
  using assms(1) unfolding reaches_def
  by (induction rule: rtranclp_induct) (auto intro: assms(2,3))

lemma wellFormed_reaches: "wellFormed s \<Longrightarrow> reaches s s' \<Longrightarrow> wellFormed s'"
  by (rule reaches_invariant [where P = wellFormed]) (auto intro: wellFormed_loopStep)

lemma mset_swap_entries:
  assumes "i < length xs" "j < length ys"
  shows "mset (xs[i := ys ! j]) + mset (ys[j := xs ! i]) = mset xs + mset ys"
proof -
  define A where "A = mset xs - {#xs ! i#}"
  define B where "B = mset ys - {#ys ! j#}"
  have xs: "mset xs = add_mset (xs ! i) A" using assms(1) by (simp add: A_def)
  have ys: "mset ys = add_mset (ys ! j) B" using assms(2) by (simp add: B_def)
  have "mset (xs[i := ys ! j]) = add_mset (ys ! j) A"
    using assms(1) by (simp add: mset_update A_def)
  moreover have "mset (ys[j := xs ! i]) = add_mset (xs ! i) B"
    using assms(2) by (simp add: mset_update B_def)
  ultimately show ?thesis unfolding xs ys by simp
qed

lemma varsPartition_loopStep:
  assumes "wellFormed s" "varsPartition n s" "loopStep s s'"
  shows "varsPartition n s'"
  using assms(3)
proof (cases rule: loopStep_cases)
  case (pivoted pr pc)
  have pr: "firstConstraintRow \<le> pr \<and> pr < nRows s" using findPivotRow_range [OF pivoted(1)] by simp
  have pc: "firstNonBasicVariableColumn \<le> pc \<and> pc < nColumns s"
    using findPivotColumn_Some(1) [OF pivoted(2)] pivotCandidates_range by blast
  have "pc - 2 < length (nonBasicVariables s)" "pr - 1 < length (basicVariables s)"
    using pr pc assms(1) by (auto simp: wellFormed_def)
  from mset_swap_entries [OF this] show ?thesis
    unfolding loopStep_pivoted [OF assms(1) pivoted] using assms(2)
    by (simp add: varsPartition_def swapVariables_def Let_def)
next
  case (increased pr)
  then show ?thesis using assms(2) by (simp add: varsPartition_def)
qed

lemma solveTableau_loopStep: "loopStep s s' \<Longrightarrow> solveTableau s = solveTableau s'"
  by (subst solveTableau.simps) (simp add: loopStep_def)

lemma solveTableau_reaches: "reaches s s' \<Longrightarrow> solveTableau s = solveTableau s'"
  unfolding reaches_def
  by (induction rule: rtranclp_induct) (auto dest: solveTableau_loopStep)

lemma solveTableau_Return: "solveStep s = Return r \<Longrightarrow> solveTableau s = Some (Inr (r, s))"
  by (subst solveTableau.simps) simp

lemma solveTableau_Abort: "solveStep s = Abort e \<Longrightarrow> solveTableau s = Some (Inl e)"
  by (subst solveTableau.simps) simp

lemma solveTableau_Some:
  assumes "solveTableau s = Some res"
  shows "\<exists>s'. reaches s s' \<and>
    ((\<exists>r. solveStep s' = Return r \<and> res = Inr (r, s')) \<or> (\<exists>e. solveStep s' = Abort e \<and> res = Inl e))"
proof (rule solveTableau.raw_induct [where P = "\<lambda>s res. \<exists>s'. reaches s s' \<and>
    ((\<exists>r. solveStep s' = Return r \<and> res = Inr (r, s')) \<or> (\<exists>e. solveStep s' = Abort e \<and> res = Inl e))", OF _ assms])
  fix solve s res
  assume 1: "\<And>s res. solve s = Some res \<Longrightarrow> \<exists>s'. reaches s s' \<and>
    ((\<exists>r. solveStep s' = Return r \<and> res = Inr (r, s')) \<or> (\<exists>e. solveStep s' = Abort e \<and> res = Inl e))"
    "(case solveStep s of Continue s' \<Rightarrow> solve s' | Return r \<Rightarrow> Some (Inr (r, s)) | Abort e \<Rightarrow> Some (Inl e)) = Some res"
  show "\<exists>s'. reaches s s' \<and>
    ((\<exists>r. solveStep s' = Return r \<and> res = Inr (r, s')) \<or> (\<exists>e. solveStep s' = Abort e \<and> res = Inl e))"
  proof (cases "solveStep s")
    case (Continue s1)
    then have "solve s1 = Some res" using 1(2) by simp
    from 1(1) [OF this] obtain s' where "reaches s1 s'"
      "(\<exists>r. solveStep s' = Return r \<and> res = Inr (r, s')) \<or> (\<exists>e. solveStep s' = Abort e \<and> res = Inl e)"
      by blast
    moreover have "reaches s s'"
      using Continue \<open>reaches s1 s'\<close> unfolding reaches_def
      by (auto simp: loopStep_def intro: converse_rtranclp_into_rtranclp)
    ultimately show ?thesis by blast
  next
    case (Return r)
    then show ?thesis using 1(2) by (auto simp: reaches_def)
  next
    case (Abort e)
    then show ?thesis using 1(2) by (auto simp: reaches_def)
  qed
qed

lemma solveTableau_result_iff:
  "solveTableau s = Some (Inr (r, s')) \<longleftrightarrow> reaches s s' \<and> solveStep s' = Return r"
proof
  assume "solveTableau s = Some (Inr (r, s'))"
  from solveTableau_Some [OF this] show "reaches s s' \<and> solveStep s' = Return r" by auto
next
  assume "reaches s s' \<and> solveStep s' = Return r"
  then show "solveTableau s = Some (Inr (r, s'))"
    using solveTableau_reaches [of s s'] solveTableau_Return [of s' r] by simp
qed

section \<open>Infeasibility, the trial value of T, and the writes to the problem\<close>

lemma solveStep_failure_iff:
  "solveStep s = Return failure \<longleftrightarrow>
     (\<exists>r. findPivotRow s = Some r \<and> rowValue s r < 0 \<and>
          (\<forall>c. firstNonBasicVariableColumn \<le> c \<and> c < nColumns s \<longrightarrow> 0 \<le> tableau s ! r ! c) \<and>
          tableau s ! r ! parameterTColumn \<le> 0)"
proof -
  have cand: "pivotCandidates s r = {} \<longleftrightarrow>
      (\<forall>c. firstNonBasicVariableColumn \<le> c \<and> c < nColumns s \<longrightarrow> 0 \<le> tableau s ! r ! c)" for r
    by (auto simp: pivotCandidates_def not_less)
  show ?thesis
  proof (cases "findPivotRow s")
    case None
    then show ?thesis by (simp add: solveStep_def)
  next
    case (Some pr)
    have viol: "rowValue s pr < 0" using findPivotRow_range [OF Some] by simp
    show ?thesis
    proof (cases "findPivotColumn s pr")
      case (Inl e)
      then have "pivotCandidates s pr \<noteq> {}" using findPivotColumn_None [of s pr] by auto
      then show ?thesis using Some Inl cand [of pr] by (simp add: solveStep_def)
    next
      case (Inr res)
      show ?thesis
      proof (cases res)
        case None
        then have "pivotCandidates s pr = {}" using Inr findPivotColumn_None [of s pr] by simp
        then show ?thesis using Some Inr None viol cand [of pr]
          by (auto simp: solveStep_def Let_def)
      next
        case (Some pc)
        then have "pivotCandidates s pr \<noteq> {}" using Inr findPivotColumn_None [of s pr] by auto
        then show ?thesis using \<open>findPivotRow s = Some pr\<close> Inr Some cand [of pr]
          by (simp add: solveStep_def split: sum.splits)
      qed
    qed
  qed
qed

lemma schedule_failure_iff:
  "schedule prob lastOp = Some (Inr (failure, p')) \<longleftrightarrow>
     (\<exists>s'. solveTableau (initialTableau prob lastOp) = Some (Inr (failure, s'))) \<and> p' = prob"
  unfolding schedule_def initialTableau_def [symmetric] Let_def
  by (auto split: option.splits sum.splits LogicalResult.splits prod.splits if_splits)

lemma twoCycle_solve:
  "map_option (map_sum id fst) (solveTableau (initialTableau twoCycle 0)) = Some (Inr failure)"
  "map_option (map_sum id fst) (solveTableau (initialTableau twoCycle 1)) = Some (Inr failure)"
  by code_simp+

lemma result_of_projection:
  assumes "map_option (map_sum id fst) x = Some (Inr r)"
  shows "\<exists>s'. x = Some (Inr (r, s'))"
proof -
  obtain y where y: "x = Some y" "map_sum id fst y = Inr r" using assms by (cases x) auto
  then obtain p where "y = Inr p" "fst p = r" by (cases y) auto
  then show ?thesis using y by (cases p) auto
qed

lemma twoCycle_infeasible:
  "schedule twoCycle 0 = Some (Inr (failure, twoCycle))"
  "schedule twoCycle 1 = Some (Inr (failure, twoCycle))"
  using twoCycle_solve [THEN result_of_projection] unfolding schedule_failure_iff by simp_all

text \<open>
  C6. \<open>solveTableau\<close> returns failure, in the state \<open>s'\<close>, exactly when its iterations
  reach \<open>s'\<close> and the pivot row selected there (a row with a negative value under the
  current \<open>parameterT\<close>) has no negative entry in a non-basic-variable column and a
  non-positive entry in the column of \<open>T\<close>. The two operations with \<open>A \<rightarrow> B\<close> and
  \<open>B \<rightarrow> A\<close> of latency 5 are reported infeasible, as the result \<open>failure\<close> and not as
  an abort, whichever of them is the last operation; the problem is left as it was.
\<close>

theorem solveTableau_failure_iff:
  "(solveTableau s = Some (Inr (failure, s')) \<longleftrightarrow>
      reaches s s' \<and>
      (\<exists>r. findPivotRow s' = Some r \<and> rowValue s' r < 0 \<and>
           (\<forall>c. firstNonBasicVariableColumn \<le> c \<and> c < nColumns s' \<longrightarrow> 0 \<le> tableau s' ! r ! c) \<and>
           tableau s' ! r ! parameterTColumn \<le> 0)) \<and>
   schedule twoCycle 0 = Some (Inr (failure, twoCycle)) \<and>
   schedule twoCycle 1 = Some (Inr (failure, twoCycle))"
  unfolding solveTableau_result_iff solveStep_failure_iff using twoCycle_infeasible by simp

theorem solveTableau_failure_iff_witness:
  "\<exists>s'. reaches (initialTableau twoCycle 1) s' \<and> findPivotRow s' = Some 2 \<and>
     tableau s' ! 2 = [- 10, 0, 1, 0]"
proof -
  let ?s = "nextState (initialTableau twoCycle 1)"
  have "solveTableau (initialTableau twoCycle 1) = Some (Inr (failure, ?s))" by code_simp
  then have "reaches (initialTableau twoCycle 1) ?s"
    using solveTableau_failure_iff [of "initialTableau twoCycle 1" ?s] by blast
  moreover have "findPivotRow ?s = Some 2" by code_simp
  moreover have "tableau ?s ! 2 = [- 10, 0, 1, 0]" by code_simp
  ultimately show ?thesis by blast
qed

lemma opColumnsOf_neq_1: "opColumnsOf ops x \<noteq> 1"
  using opColumnsOf_range [of ops x] by auto

lemma fillConstraintRow_TColumn:
  "f (getSource dep) \<noteq> 1 \<Longrightarrow> f (getDestination dep) \<noteq> 1 \<Longrightarrow>
   fillConstraintRow prob (replicate (2 + n) 0) dep f ! parameterTColumn = 0"
  by (simp add: fillConstraintRow_def Let_def nth_list_update del: replicate_Suc replicate.simps list_update.simps)


lemma pivotTableau_nth:
  "r < length tab \<Longrightarrow> c < length (tab ! r) \<Longrightarrow>
   pivotTableau tab pr pc ! r ! c =
     (if r = pr then (if c = pc then - 1 else - (tab ! pr ! c))
      else if c = pc then tab ! r ! pc
      else tab ! r ! c + tab ! r ! pc * (tab ! pr ! c))"
  by (cases "r = pr") (simp_all add: pivotTableau_def)






lemma map_fst_concat_indexed:
  "map fst (concat (map (\<lambda>i. if P (xs ! i) then [(f (xs ! i), g i)] else []) [0..<length xs])) =
     map f (filter P xs)"
proof (induction xs arbitrary: g rule: rev_induct)
  case Nil
  then show ?case by simp
next
  case (snoc x xs)
  have eq: "map (\<lambda>i. if P ((xs @ [x]) ! i) then [(f ((xs @ [x]) ! i), g i)] else []) [0..<length xs] =
      map (\<lambda>i. if P (xs ! i) then [(f (xs ! i), g i)] else []) [0..<length xs]"
    by (rule map_cong [OF refl]) (simp add: nth_append)
  have up: "[0..<length (xs @ [x])] = [0..<length xs] @ [length xs]" by simp
  show ?case unfolding up map_append concat_append eq snoc.IH [of g] by simp
qed

lemma map_fst_basicStartTimes:
  "map fst (basicStartTimes ops s) = map (\<lambda>v. ops ! v) (filter (\<lambda>v. v < length ops) (basicVariables s))"
  unfolding basicStartTimes_def Let_def
  by (rule map_fst_concat_indexed [where f = "\<lambda>v. ops ! v" and P = "\<lambda>v. v < length ops"])

lemma map_fst_nonBasicStartTimes:
  "map fst (nonBasicStartTimes ops s) =
     map (\<lambda>v. ops ! v) (filter (\<lambda>v. v < length ops) (nonBasicVariables s))"
  unfolding nonBasicStartTimes_def Let_def
  by (rule map_fst_concat_indexed [where f = "\<lambda>v. ops ! v" and P = "\<lambda>v. v < length ops"
        and g = "\<lambda>i. 0"])

lemma startTimes_once:
  assumes "varsPartition (length ops + d) s"
  shows "mset (map fst (basicStartTimes ops s @ nonBasicStartTimes ops s)) = mset ops"
proof -
  let ?P = "\<lambda>v. v < length ops"
  have "mset (map fst (basicStartTimes ops s @ nonBasicStartTimes ops s)) =
      image_mset (\<lambda>v. ops ! v) (filter_mset ?P (mset (nonBasicVariables s) + mset (basicVariables s)))"
    by (simp add: map_fst_basicStartTimes map_fst_nonBasicStartTimes)
  also have "mset (nonBasicVariables s) + mset (basicVariables s) = mset [0..<length ops + d]"
    using assms by (simp add: varsPartition_def)
  also have "filter_mset ?P (mset [0..<length ops + d]) = mset [0..<length ops]"
  proof -
    have "filter ?P [0..<length ops + d] = [0..<length ops]"
      unfolding upt_add_eq_append [OF le0] by (simp add: filter_empty_conv)
    then show ?thesis by (metis mset_filter)
  qed
  also have "image_mset (\<lambda>v. ops ! v) (mset [0..<length ops]) = mset ops"
    by (metis map_nth mset_map)
  finally show ?thesis .
qed

lemma varsPartition_reaches:
  assumes "wellFormed s" "varsPartition n s" "reaches s s'"
  shows "varsPartition n s'"
proof -
  have "wellFormed s' \<and> varsPartition n s'"
    by (rule reaches_invariant [OF assms(3)])
      (use assms in \<open>auto intro: wellFormed_loopStep varsPartition_loopStep\<close>)
  then show ?thesis by simp
qed

lemma storeStartTimes_frame:
  "getOperations (storeStartTimes prob s) = getOperations prob \<and>
   (storeStartTimes prob s)\<lparr>startTime := startTime prob\<rparr> = prob"
proof -
  have "getOperations (fold (\<lambda>(opn, t) prob. setStartTime prob opn t) ws p) = getOperations p \<and>
      (fold (\<lambda>(opn, t) prob. setStartTime prob opn t) ws p)\<lparr>startTime := st\<rparr> = p\<lparr>startTime := st\<rparr>"
    for ws and p :: "'a problem_scheme" and st
    by (induction ws arbitrary: p) (auto simp: setStartTime_def)
  then show ?thesis unfolding storeStartTimes_def by simp
qed

lemma schedule_success_iff:
  "schedule prob lastOp = Some (Inr (success, p')) \<longleftrightarrow>
     (\<exists>s'. solveTableau (initialTableau prob lastOp) = Some (Inr (success, s')) \<and>
           parameterT s' = 0 \<and> p' = storeStartTimes prob s')"
  unfolding schedule_def initialTableau_def [symmetric] Let_def
  by (auto split: option.splits sum.splits LogicalResult.splits prod.splits if_splits)

lemma cyclicSchedule_failure_iff:
  "cyclicSchedule prob lastOp = Some (Inr (failure, p')) \<longleftrightarrow>
     (\<exists>s'. solveTableau (cyclicInitialTableau prob lastOp) = Some (Inr (failure, s'))) \<and> p' = prob"
  unfolding cyclicSchedule_def cyclicInitialTableau_def [symmetric] Let_def
  by (auto split: option.splits sum.splits LogicalResult.splits prod.splits if_splits)

lemma cyclicSchedule_success_iff:
  "cyclicSchedule prob lastOp = Some (Inr (success, p')) \<longleftrightarrow>
     (\<exists>s'. solveTableau (cyclicInitialTableau prob lastOp) = Some (Inr (success, s')) \<and>
           p' = storeStartTimes (setInitiationInterval prob (nat (parameterT s'))) s')"
  unfolding cyclicSchedule_def cyclicInitialTableau_def [symmetric] Let_def
  by (auto split: option.splits sum.splits LogicalResult.splits prod.splits if_splits)

lemma varsPartition_solved:
  assumes "solveTableau (buildTableau fill prob lastOp (newScheduler\<lparr>parameterT := T\<rparr>)) =
      Some (Inr (r, s'))"
    and "\<And>row dep f. length (fill row dep f) = length row"
  shows "varsPartition (length (getOperations prob) + length (allDependences prob)) s'"
proof -
  have "reaches (buildTableau fill prob lastOp (newScheduler\<lparr>parameterT := T\<rparr>)) s'"
    using assms(1) solveTableau_result_iff by blast
  then show ?thesis
    using varsPartition_reaches [OF wellFormed_buildTableau varsPartition_buildTableau] assms(2)
    by blast
qed

text \<open>
  C10. A scheduler that reports failure returns the problem as it was. One that reports
  success has applied, after the solve loop has returned, one \<open>setStartTime\<close> per
  operation (the operations written are a permutation of the operations of the
  problem), and the cyclic scheduler has set the initiation interval before that;
  nothing else is written.
\<close>

theorem schedule_writes_only_on_success:
  "(schedule prob lastOp = Some (Inr (failure, p')) \<longrightarrow> p' = prob) \<and>
   (schedule prob lastOp = Some (Inr (success, p')) \<longrightarrow>
      (\<exists>s' writes. solveTableau (initialTableau prob lastOp) = Some (Inr (success, s')) \<and>
         mset (map fst writes) = mset (getOperations prob) \<and>
         p' = fold (\<lambda>(opn, t) p. setStartTime p opn t) writes prob)) \<and>
   (cyclicSchedule cprob lastOp' = Some (Inr (failure, cp')) \<longrightarrow> cp' = cprob) \<and>
   (cyclicSchedule cprob lastOp' = Some (Inr (success, cp')) \<longrightarrow>
      (\<exists>s' writes. solveTableau (cyclicInitialTableau cprob lastOp') = Some (Inr (success, s')) \<and>
         mset (map fst writes) = mset (getOperations cprob) \<and>
         cp' = fold (\<lambda>(opn, t) p. setStartTime p opn t) writes
                 (setInitiationInterval cprob (nat (parameterT s')))))"
proof (intro conjI impI)
  assume "schedule prob lastOp = Some (Inr (failure, p'))"
  then show "p' = prob" by (simp add: schedule_failure_iff)
next
  assume "cyclicSchedule cprob lastOp' = Some (Inr (failure, cp'))"
  then show "cp' = cprob" by (simp add: cyclicSchedule_failure_iff)
next
  assume "schedule prob lastOp = Some (Inr (success, p'))"
  then obtain s' where s': "solveTableau (initialTableau prob lastOp) = Some (Inr (success, s'))"
    "p' = storeStartTimes prob s'"
    unfolding schedule_success_iff by blast
  have "varsPartition (length (getOperations prob) + length (allDependences prob)) s'"
    using s'(1) unfolding initialTableau_def by (rule varsPartition_solved) simp
  from startTimes_once [OF this] show "\<exists>s' writes.
      solveTableau (initialTableau prob lastOp) = Some (Inr (success, s')) \<and>
      mset (map fst writes) = mset (getOperations prob) \<and>
      p' = fold (\<lambda>(opn, t) p. setStartTime p opn t) writes prob"
    using s' unfolding storeStartTimes_def by blast
next
  assume "cyclicSchedule cprob lastOp' = Some (Inr (success, cp'))"
  then obtain s' where s': "solveTableau (cyclicInitialTableau cprob lastOp') = Some (Inr (success, s'))"
    "cp' = storeStartTimes (setInitiationInterval cprob (nat (parameterT s'))) s'"
    unfolding cyclicSchedule_success_iff by blast
  have "varsPartition (length (getOperations cprob) + length (allDependences cprob)) s'"
    using s'(1) unfolding cyclicInitialTableau_def by (rule varsPartition_solved) simp
  from startTimes_once [OF this]
  have "mset (map fst (basicStartTimes (getOperations cprob) s' @
      nonBasicStartTimes (getOperations cprob) s')) = mset (getOperations cprob)" .
  moreover have "getOperations (setInitiationInterval cprob (nat (parameterT s'))) = getOperations cprob"
    by (simp add: setInitiationInterval_def)
  ultimately show "\<exists>s' writes.
      solveTableau (cyclicInitialTableau cprob lastOp') = Some (Inr (success, s')) \<and>
      mset (map fst writes) = mset (getOperations cprob) \<and>
      cp' = fold (\<lambda>(opn, t) p. setStartTime p opn t) writes
              (setInitiationInterval cprob (nat (parameterT s')))"
    using s' unfolding storeStartTimes_def by metis
qed

lemma chain3_succeeds: "map_option (map_sum id fst) (schedule chain3 2) = Some (Inr success)"
  by code_simp

theorem schedule_writes_only_on_success_witness:
  "\<exists>p' s' writes. schedule chain3 2 = Some (Inr (success, p')) \<and>
     solveTableau (initialTableau chain3 2) = Some (Inr (success, s')) \<and>
     mset (map fst writes) = mset (getOperations chain3) \<and>
     p' = fold (\<lambda>(opn, t) p. setStartTime p opn t) writes chain3"
proof -
  obtain p' where p': "schedule chain3 2 = Some (Inr (success, p'))"
    using result_of_projection [OF chain3_succeeds] by blast
  then show ?thesis
    using schedule_writes_only_on_success [of chain3 2 p'] by blast
qed

section \<open>The linear program of the tableau, feasibility and optimality\<close>

lemma rowExpr_split:
  assumes "j0 < length (nonBasicVariables s)"
  shows "rowExpr s T x r =
     tableau s ! r ! 0 + tableau s ! r ! 1 * T -
     ((\<Sum>j\<in>{..<length (nonBasicVariables s)} - {j0}.
         tableau s ! r ! (2 + j) * x (nonBasicVariables s ! j)) +
      tableau s ! r ! (2 + j0) * x (nonBasicVariables s ! j0))"
proof -
  have "(\<Sum>j<length (nonBasicVariables s). tableau s ! r ! (2 + j) * x (nonBasicVariables s ! j)) =
      tableau s ! r ! (2 + j0) * x (nonBasicVariables s ! j0) +
      (\<Sum>j\<in>{..<length (nonBasicVariables s)} - {j0}.
         tableau s ! r ! (2 + j) * x (nonBasicVariables s ! j))"
    by (rule sum.remove) (use assms in auto)
  then show ?thesis by (simp add: rowExpr_def)
qed

lemma pivoted_fields:
  "tableau (pivoted s pr pc) = pivotTableau (tableau s) pr pc"
  "nonBasicVariables (pivoted s pr pc) = (nonBasicVariables s)[pc - 2 := basicVariables s ! (pr - 1)]"
  "basicVariables (pivoted s pr pc) = (basicVariables s)[pr - 1 := nonBasicVariables s ! (pc - 2)]"
  "parameterT (pivoted s pr pc) = parameterT s"
  "nRows (pivoted s pr pc) = nRows s"
  "nColumns (pivoted s pr pc) = nColumns s"
  by (simp_all add: pivoted_def swapVariables_def Let_def)

lemma pivotable_dims:
  assumes "pivotable s pr pc"
  shows "pr < length (tableau s)" "pc - 2 < length (nonBasicVariables s)"
    "pr - 1 < length (basicVariables s)" "2 + (pc - 2) = pc" "1 + (pr - 1) = pr"
    "\<And>r. r < length (tableau s) \<Longrightarrow> length (tableau s ! r) = 2 + length (nonBasicVariables s)"
    "length (tableau s) = 1 + length (basicVariables s)"
  using assms unfolding pivotable_def wellFormed_def by auto

lemma rowExpr_pivoted_split:
  assumes p: "pivotable s pr pc" and r: "r < length (tableau s)"
  shows "rowExpr (pivoted s pr pc) T x r =
     pivotTableau (tableau s) pr pc ! r ! 0 + pivotTableau (tableau s) pr pc ! r ! 1 * T -
     ((\<Sum>j\<in>{..<length (nonBasicVariables s)} - {pc - 2}.
         pivotTableau (tableau s) pr pc ! r ! (2 + j) * x (nonBasicVariables s ! j)) +
      pivotTableau (tableau s) pr pc ! r ! pc * x (basicVariables s ! (pr - 1)))"
proof -
  let ?m = "length (nonBasicVariables s)"
  have j0: "pc - 2 < length (nonBasicVariables (pivoted s pr pc))"
    using pivotable_dims(2) [OF p] by (simp add: pivoted_fields)
  have "(\<Sum>j\<in>{..<?m} - {pc - 2}.
         pivotTableau (tableau s) pr pc ! r ! (2 + j) * x ((nonBasicVariables s)[pc - 2 := basicVariables s ! (pr - 1)] ! j)) =
      (\<Sum>j\<in>{..<?m} - {pc - 2}.
         pivotTableau (tableau s) pr pc ! r ! (2 + j) * x (nonBasicVariables s ! j))"
    by (rule sum.cong) auto
  then show ?thesis
    unfolding rowExpr_split [OF j0] pivoted_fields
    using pivotable_dims(2,4) [OF p] by simp
qed

lemma rowExpr_pivoted_row:
  assumes p: "pivotable s pr pc"
  shows "rowExpr (pivoted s pr pc) T x pr =
     x (basicVariables s ! (pr - 1)) + x (nonBasicVariables s ! (pc - 2)) - rowExpr s T x pr"
proof -
  let ?tab = "tableau s" and ?m = "length (nonBasicVariables s)"
  note d = pivotable_dims [OF p]
  have elem: "?tab ! pr ! pc = - 1" and pc2: "2 \<le> pc" using p by (simp_all add: pivotable_def)
  have len: "length (?tab ! pr) = 2 + ?m" using d(6) [OF d(1)] .
  have pcl: "pc < 2 + ?m" using d(2) pc2 by simp
  have c0: "pivotTableau ?tab pr pc ! pr ! 0 = - (?tab ! pr ! 0)"
    and c1: "pivotTableau ?tab pr pc ! pr ! 1 = - (?tab ! pr ! 1)"
    and cp: "pivotTableau ?tab pr pc ! pr ! pc = - 1"
    using d(1) len pc2 pcl by (simp_all add: pivotTableau_nth)
  have "(\<Sum>j\<in>{..<?m} - {pc - 2}. pivotTableau ?tab pr pc ! pr ! (2 + j) * x (nonBasicVariables s ! j)) =
      (\<Sum>j\<in>{..<?m} - {pc - 2}. - (?tab ! pr ! (2 + j) * x (nonBasicVariables s ! j)))"
    by (rule sum.cong) (use d(1) len pc2 in \<open>auto simp: pivotTableau_nth\<close>)
  also have "\<dots> = - (\<Sum>j\<in>{..<?m} - {pc - 2}. ?tab ! pr ! (2 + j) * x (nonBasicVariables s ! j))"
    by (simp add: sum_negf)
  finally have sm: "(\<Sum>j\<in>{..<?m} - {pc - 2}. pivotTableau ?tab pr pc ! pr ! (2 + j) * x (nonBasicVariables s ! j)) =
      - (\<Sum>j\<in>{..<?m} - {pc - 2}. ?tab ! pr ! (2 + j) * x (nonBasicVariables s ! j))" .
  show ?thesis
    unfolding rowExpr_pivoted_split [OF p d(1)] rowExpr_split [OF d(2)] c0 c1 cp sm d(4) elem
    by simp
qed

lemma rowExpr_pivoted_other:
  assumes p: "pivotable s pr pc" and r: "r < length (tableau s)" "r \<noteq> pr"
  shows "rowExpr (pivoted s pr pc) T x r =
     rowExpr s T x r + tableau s ! r ! pc * (rowExpr s T x pr - x (basicVariables s ! (pr - 1)))"
proof -
  let ?tab = "tableau s" and ?m = "length (nonBasicVariables s)"
  note d = pivotable_dims [OF p]
  have elem: "?tab ! pr ! pc = - 1" and pc2: "2 \<le> pc" using p by (simp_all add: pivotable_def)
  have len: "length (?tab ! r) = 2 + ?m" using d(6) [OF r(1)] .
  have pcl: "pc < 2 + ?m" using d(2) pc2 by simp
  have c0: "pivotTableau ?tab pr pc ! r ! 0 = ?tab ! r ! 0 + ?tab ! r ! pc * (?tab ! pr ! 0)"
    and c1: "pivotTableau ?tab pr pc ! r ! 1 = ?tab ! r ! 1 + ?tab ! r ! pc * (?tab ! pr ! 1)"
    and cp: "pivotTableau ?tab pr pc ! r ! pc = ?tab ! r ! pc"
    using r len pc2 pcl by (simp_all add: pivotTableau_nth)
  have "(\<Sum>j\<in>{..<?m} - {pc - 2}. pivotTableau ?tab pr pc ! r ! (2 + j) * x (nonBasicVariables s ! j)) =
      (\<Sum>j\<in>{..<?m} - {pc - 2}. ?tab ! r ! (2 + j) * x (nonBasicVariables s ! j) +
          ?tab ! r ! pc * (?tab ! pr ! (2 + j) * x (nonBasicVariables s ! j)))"
    by (rule sum.cong) (use r len pc2 in \<open>auto simp: pivotTableau_nth algebra_simps\<close>)
  also have "\<dots> = (\<Sum>j\<in>{..<?m} - {pc - 2}. ?tab ! r ! (2 + j) * x (nonBasicVariables s ! j)) +
      ?tab ! r ! pc * (\<Sum>j\<in>{..<?m} - {pc - 2}. ?tab ! pr ! (2 + j) * x (nonBasicVariables s ! j))"
    by (simp add: sum.distrib sum_distrib_left)
  finally have sm: "(\<Sum>j\<in>{..<?m} - {pc - 2}. pivotTableau ?tab pr pc ! r ! (2 + j) * x (nonBasicVariables s ! j)) =
      (\<Sum>j\<in>{..<?m} - {pc - 2}. ?tab ! r ! (2 + j) * x (nonBasicVariables s ! j)) +
      ?tab ! r ! pc * (\<Sum>j\<in>{..<?m} - {pc - 2}. ?tab ! pr ! (2 + j) * x (nonBasicVariables s ! j))" .
  show ?thesis
    unfolding rowExpr_pivoted_split [OF p r(1)] rowExpr_split [OF d(2)] c0 c1 cp sm d(4) elem
    by (simp add: algebra_simps)
qed

lemma solution_pivoted:
  assumes p: "pivotable s pr pc"
  shows "solution (pivoted s pr pc) T x \<longleftrightarrow> solution s T x"
proof -
  note d = pivotable_dims [OF p]
  let ?b = "basicVariables s" and ?i0 = "pr - 1"
  have row_i: "1 + i < length (tableau s)" if "i < length ?b" for i using that d(7) by simp
  have key: "x (?b ! ?i0) = rowExpr s T x pr \<longleftrightarrow>
      x (nonBasicVariables s ! (pc - 2)) = rowExpr (pivoted s pr pc) T x pr"
    unfolding rowExpr_pivoted_row [OF p] by auto
  have other: "rowExpr (pivoted s pr pc) T x (1 + i) = rowExpr s T x (1 + i)"
    if "x (?b ! ?i0) = rowExpr s T x pr" "i < length ?b" "i \<noteq> ?i0" for i
  proof -
    have "1 + i \<noteq> pr" using that(3) d(5) by auto
    from rowExpr_pivoted_other [OF p row_i [OF that(2)] this] show ?thesis using that(1) by simp
  qed
  show ?thesis
  proof
    assume sol: "solution s T x"
    then have piv: "x (?b ! ?i0) = rowExpr s T x pr"
      using d(3,5) by (auto simp: solution_def)
    show "solution (pivoted s pr pc) T x"
      unfolding solution_def pivoted_fields
    proof (intro allI impI)
      fix i assume "i < length (?b[?i0 := nonBasicVariables s ! (pc - 2)])"
      then have i: "i < length ?b" by simp
      show "x (?b[?i0 := nonBasicVariables s ! (pc - 2)] ! i) =
          rowExpr (pivoted s pr pc) T x (firstConstraintRow + i)"
      proof (cases "i = ?i0")
        case True
        then show ?thesis using key piv i d(5) by simp
      next
        case False
        then show ?thesis using other [OF piv i False] sol i by (simp add: solution_def)
      qed
    qed
  next
    assume sol: "solution (pivoted s pr pc) T x"
    then have "x (nonBasicVariables s ! (pc - 2)) = rowExpr (pivoted s pr pc) T x pr"
      using d(3,5) by (auto simp: solution_def pivoted_fields)
    then have piv: "x (?b ! ?i0) = rowExpr s T x pr" using key by simp
    show "solution s T x"
      unfolding solution_def
    proof (intro allI impI)
      fix i assume i: "i < length ?b"
      show "x (?b ! i) = rowExpr s T x (firstConstraintRow + i)"
      proof (cases "i = ?i0")
        case True
        then show ?thesis using piv d(5) by simp
      next
        case False
        have "x ((basicVariables (pivoted s pr pc)) ! i) = rowExpr (pivoted s pr pc) T x (1 + i)"
          using sol i by (simp add: solution_def pivoted_fields)
        then show ?thesis using other [OF piv i False] False i by (simp add: pivoted_fields)
      qed
    qed
  qed
qed

lemma objective_pivoted:
  assumes p: "pivotable s pr pc" and sol: "solution s T x"
  shows "rowExpr (pivoted s pr pc) T x objectiveRow = rowExpr s T x objectiveRow"
proof -
  note d = pivotable_dims [OF p]
  have piv: "x (basicVariables s ! (pr - 1)) = rowExpr s T x pr"
    using sol d(3,5) by (auto simp: solution_def)
  have "0 < length (tableau s)" "0 \<noteq> pr" using d(1) p by (auto simp: pivotable_def)
  from rowExpr_pivoted_other [OF p this] show ?thesis using piv by simp
qed

lemma loopStep_pivot:
  assumes wf: "wellFormed s" and row: "findPivotRow s = Some pr"
    and col: "findPivotColumn s pr = Inr (Some pc)" and piv: "pivot s pr pc = Inr s'"
  shows "pivotable s pr pc" "s' = pivoted s pr pc"
proof -
  show "pivotable s pr pc"
    unfolding pivotable_def
    using wf findPivotRow_range [OF row] findPivotColumn_Some(1,2) [OF col] pivotCandidates_range
    by blast
  show "s' = pivoted s pr pc"
    unfolding pivoted_def by (rule loopStep_pivoted [OF wf row col piv])
qed

lemma solution_loopStep:
  assumes "wellFormed s" "loopStep s s'"
  shows "solution s' T x \<longleftrightarrow> solution s T x"
  using assms(2)
proof (cases rule: loopStep_cases)
  case (pivoted pr pc)
  from loopStep_pivot [OF assms(1) pivoted] show ?thesis by (simp add: solution_pivoted)
next
  case (increased pr)
  then show ?thesis by (simp add: solution_def rowExpr_def)
qed

lemma objective_loopStep:
  assumes "wellFormed s" "loopStep s s'" "solution s T x"
  shows "rowExpr s' T x objectiveRow = rowExpr s T x objectiveRow"
  using assms(2)
proof (cases rule: loopStep_cases)
  case (pivoted pr pc)
  from loopStep_pivot [OF assms(1) pivoted] show ?thesis
    using objective_pivoted [OF _ assms(3)] by simp
next
  case (increased pr)
  then show ?thesis by (simp add: rowExpr_def)
qed

lemma dualFeasible_loopStep:
  assumes wf: "wellFormed s" and df: "dualFeasible s" and step: "loopStep s s'"
  shows "dualFeasible s'"
  using step
proof (cases rule: loopStep_cases)
  case (pivoted pr pc)
  note p = loopStep_pivot [OF wf pivoted]
  note d = pivotable_dims [OF p(1)]
  let ?tab = "tableau s" and ?m = "length (nonBasicVariables s)"
  have pr0: "0 \<noteq> pr" "0 < length ?tab" and pc2: "2 \<le> pc" and pcm: "pc < nColumns s"
    using p(1) d(1) by (auto simp: pivotable_def)
  have len0: "length (?tab ! 0) = 2 + ?m" using d(6) [OF pr0(2)] .
  have ncol: "nColumns s = 2 + ?m" using wf by (simp add: wellFormed_def)
  have objpc: "0 \<le> ?tab ! 0 ! pc"
    using df d(2) d(4) unfolding dualFeasible_def by (metis objectiveRow_def firstNonBasicVariableColumn_def)
  have "0 \<le> pivotTableau ?tab pr pc ! 0 ! (2 + j)" if j: "j < ?m" for j
  proof (cases "2 + j = pc")
    case True
    then show ?thesis using pr0 len0 j objpc by (simp add: pivotTableau_nth)
  next
    case False
    have objj: "0 \<le> ?tab ! 0 ! (2 + j)" using df j by (simp add: dualFeasible_def)
    have eq: "pivotTableau ?tab pr pc ! 0 ! (2 + j) = ?tab ! 0 ! (2 + j) + ?tab ! 0 ! pc * (?tab ! pr ! (2 + j))"
      using pr0 len0 j False by (simp add: pivotTableau_nth)
    show ?thesis
    proof (cases "?tab ! pr ! (2 + j) < 0")
      case True
      then have "2 + j \<in> pivotCandidates s pr" using j ncol by (simp add: pivotCandidates_def)
      then have "?tab ! pr ! (2 + j) = - 1" "?tab ! 0 ! pc \<le> ?tab ! 0 ! (2 + j)"
        using findPivotColumn_Some(3) [OF pivoted(2)] by auto
      then show ?thesis unfolding eq by simp
    next
      case False
      then have "0 \<le> ?tab ! 0 ! pc * (?tab ! pr ! (2 + j))" using objpc by simp
      then show ?thesis unfolding eq using objj by simp
    qed
  qed
  then show ?thesis unfolding p(2) dualFeasible_def pivoted_fields by simp
next
  case (increased pr)
  then show ?thesis using df by (simp add: dualFeasible_def)
qed

lemma varsPartition_distinct:
  assumes "varsPartition n s"
  shows "distinct (nonBasicVariables s @ basicVariables s)"
    "set (nonBasicVariables s) \<union> set (basicVariables s) = {0..<n}"
proof -
  have m: "mset (nonBasicVariables s @ basicVariables s) = mset [0..<n]"
    using assms by (simp add: varsPartition_def)
  have "distinct [0..<n]" by simp
  then show "distinct (nonBasicVariables s @ basicVariables s)"
    using m by (metis mset_eq_imp_distinct_iff)
  have "set (nonBasicVariables s @ basicVariables s) = set [0..<n]"
    using m by (rule mset_eq_setD)
  then show "set (nonBasicVariables s) \<union> set (basicVariables s) = {0..<n}" by simp
qed

lemma basicSolution_basic:
  assumes "distinct (basicVariables s)" "i < length (basicVariables s)"
  shows "basicSolution s (basicVariables s ! i) = rowValue s (firstConstraintRow + i)"
proof -
  have "basicSolution s (basicVariables s ! i) =
      (\<Sum>k<length (basicVariables s). if k = i then rowValue s (firstConstraintRow + k) else 0)"
    unfolding basicSolution_def
    by (rule sum.cong) (use assms in \<open>auto simp: nth_eq_iff_index_eq\<close>)
  also have "\<dots> = rowValue s (firstConstraintRow + i)" using assms(2) by simp
  finally show ?thesis .
qed

lemma basicSolution_nonBasic:
  assumes "v \<notin> set (basicVariables s)"
  shows "basicSolution s v = 0"
  unfolding basicSolution_def by (rule sum.neutral) (use assms in auto)

lemma nonBasic_not_basic:
  assumes "varsPartition n s" "j < length (nonBasicVariables s)"
  shows "nonBasicVariables s ! j \<notin> set (basicVariables s)"
proof -
  have "set (nonBasicVariables s) \<inter> set (basicVariables s) = {}"
    using varsPartition_distinct(1) [OF assms(1)] by simp
  moreover have "nonBasicVariables s ! j \<in> set (nonBasicVariables s)" using assms(2) by simp
  ultimately show ?thesis by blast
qed

lemma basicSolution_solution:
  assumes "varsPartition n s"
  shows "solution s (parameterT s) (basicSolution s)"
proof -
  note dst = varsPartition_distinct(1) [OF assms]
  have zero: "basicSolution s (nonBasicVariables s ! j) = 0" if "j < length (nonBasicVariables s)" for j
    using nonBasic_not_basic [OF assms that] by (rule basicSolution_nonBasic)
  have "rowExpr s (parameterT s) (basicSolution s) r = rowValue s r" for r
    unfolding rowExpr_def rowValue_def using zero by (simp add: mult.commute)
  then show ?thesis
    unfolding solution_def using dst by (simp add: basicSolution_basic)
qed

lemma basicSolution_objective:
  assumes "varsPartition n s"
  shows "rowExpr s (parameterT s) (basicSolution s) objectiveRow = rowValue s objectiveRow"
proof -
  note dst = varsPartition_distinct(1) [OF assms]
  have zero: "basicSolution s (nonBasicVariables s ! j) = 0" if "j < length (nonBasicVariables s)" for j
    using nonBasic_not_basic [OF assms that] by (rule basicSolution_nonBasic)
  show ?thesis unfolding rowExpr_def rowValue_def using zero by (simp add: mult.commute)
qed

lemma basicSolution_nonneg:
  assumes "wellFormed s" "findPivotRow s = None"
  shows "0 \<le> basicSolution s v"
proof -
  have "0 \<le> rowValue s (1 + i)" if "i < length (basicVariables s)" for i
    using assms that findPivotRow_iff [of s] by (auto simp: wellFormed_def)
  then show ?thesis unfolding basicSolution_def by (intro sum_nonneg) auto
qed

lemma objective_upper_bound:
  assumes "dualFeasible s" "\<forall>j<length (nonBasicVariables s). 0 \<le> x (nonBasicVariables s ! j)"
  shows "rowExpr s T x objectiveRow \<le>
     tableau s ! objectiveRow ! parameter1Column + tableau s ! objectiveRow ! parameterTColumn * T"
proof -
  have "0 \<le> (\<Sum>j<length (nonBasicVariables s).
        tableau s ! 0 ! (2 + j) * x (nonBasicVariables s ! j))"
    using assms by (intro sum_nonneg) (auto simp: dualFeasible_def)
  then show ?thesis by (simp add: rowExpr_def)
qed

lemma unsignedToInt_negate:
  assumes "l \<le> 2147483648"
  shows "unsignedToInt (negateUnsigned (int l)) = - int l"
proof (cases "l = 0")
  case True
  then show ?thesis by (simp add: unsignedToInt_def negateUnsigned_def)
next
  case False
  have a: "(- int l) mod 4294967296 = (- int l + 4294967296) mod 4294967296"
    by (simp only: mod_add_self2)
  have b: "- int l + 4294967296 = 4294967296 - int l" by simp
  have c: "(4294967296 - int l) mod 4294967296 = 4294967296 - int l"
    by (rule mod_pos_pos_trivial) (use assms False in simp_all)
  have m: "negateUnsigned (int l) = 4294967296 - int l"
    unfolding negateUnsigned_def by (simp only: a b c)
  have "\<not> 4294967296 - int l < 2147483648" using assms by simp
  then show ?thesis unfolding unsignedToInt_def m c Let_def by simp
qed


lemma fillConstraintRow_nth:
  assumes "c < 2 + n" "f (getSource dep) \<noteq> 0" "f (getDestination dep) \<noteq> 0"
    and "getLatency prob (getSource dep) \<le> 2147483648"
  shows "fillConstraintRow prob (replicate (2 + n) 0) dep f ! c =
     (if c = f (getDestination dep) then - 1
      else if c = f (getSource dep) then 1
      else if c = 0 then - int (getLatency prob (getSource dep)) else 0)"
  using assms(1-3) unfolding unsignedToInt_negate [OF assms(4), symmetric]
  by (simp add: fillConstraintRow_def Let_def nth_list_update
        del: replicate_Suc replicate.simps list_update.simps)

lemma extends_fillConstraintRow:
  "extendsFillConstraintRow (fillConstraintRow prob) prob (\<lambda>dep. 0)"
proof -
  have "fillConstraintRow prob (replicate (2 + n) 0) dep f =
      (fillConstraintRow prob (replicate (2 + n) 0) dep f)[1 := 0]"
    if "\<forall>opn. f opn \<noteq> 1" for n dep f
  proof -
    have "fillConstraintRow prob (replicate (2 + n) 0) dep f ! 1 = 0"
      using fillConstraintRow_TColumn [of f dep prob n] that by simp
    then show ?thesis by (metis list_update_id)
  qed
  then show ?thesis by (simp add: extendsFillConstraintRow_def)
qed


lemma encodes_fillConstraintRow:
  "latenciesInRange prob \<Longrightarrow> encodes (fillConstraintRow prob) prob (\<lambda>dep. 0)"
  using extends_fillConstraintRow [of prob] by (simp add: encodes_def)


lemma encodes_extends:
  "encodes fill prob delta \<Longrightarrow> extendsFillConstraintRow fill prob (\<lambda>dep. int (delta dep))"
  by (simp add: encodes_def)

lemma extends_length:
  "extendsFillConstraintRow fill prob entryT \<Longrightarrow> (\<forall>opn. f opn \<noteq> 1) \<Longrightarrow>
   dep \<in> set (allDependences prob) \<Longrightarrow>
   length (fill (replicate (2 + n) 0) dep f) = 2 + n"
  by (simp add: extendsFillConstraintRow_def del: replicate_Suc replicate.simps)

lemma varOf_nth:
  assumes "distinct (getOperations prob)" "i < length (getOperations prob)"
  shows "varOf prob (getOperations prob ! i) = i"
    "opColumnsOf (getOperations prob) (getOperations prob ! i) = 2 + i"
  using opColumnsOf_nth [OF assms] by (simp_all add: varOf_def)

lemma varOf_member:
  assumes "distinct (getOperations prob)" "opn \<in> set (getOperations prob)"
  shows "varOf prob opn < length (getOperations prob)"
    "getOperations prob ! varOf prob opn = opn"
    "opColumnsOf (getOperations prob) opn = 2 + varOf prob opn"
proof -
  obtain i where i: "i < length (getOperations prob)" "getOperations prob ! i = opn"
    using assms(2) by (auto simp: in_set_conv_nth)
  show "varOf prob opn < length (getOperations prob)"
    "getOperations prob ! varOf prob opn = opn"
    "opColumnsOf (getOperations prob) opn = 2 + varOf prob opn"
    using varOf_nth [OF assms(1) i(1)] i by simp_all
qed

lemma sum_two_entries:
  fixes x :: "nat \<Rightarrow> int"
  assumes "a < n" "b < n" "a \<noteq> b"
  shows "(\<Sum>j<n. (if j = b then - 1 else if j = a then 1 else 0) * x j) = x a - x b"
proof -
  have "(\<Sum>j<n. (if j = b then - 1 else if j = a then 1 else 0) * x j) =
      (\<Sum>j<n. (if j = a then x j else 0) + (if j = b then - x j else 0))"
    by (rule sum.cong) (use assms in auto)
  also have "\<dots> = x a - x b" using assms by (simp add: sum.distrib)
  finally show ?thesis .
qed

lemma builtTableau_fields:
  "parameterT (builtTableau fill prob lastOp T0) = T0"
  "nonBasicVariables (builtTableau fill prob lastOp T0) = [0..<length (getOperations prob)]"
  "basicVariables (builtTableau fill prob lastOp T0) =
     [length (getOperations prob)..<length (getOperations prob) + length (allDependences prob)]"
  "nRows (builtTableau fill prob lastOp T0) = 1 + length (allDependences prob)"
  "nColumns (builtTableau fill prob lastOp T0) = 2 + length (getOperations prob)"
  "tableau (builtTableau fill prob lastOp T0) ! 0 =
     (replicate (2 + length (getOperations prob)) 0)[opColumnsOf (getOperations prob) lastOp := 1]"
  "k < length (allDependences prob) \<Longrightarrow>
   tableau (builtTableau fill prob lastOp T0) ! (1 + k) =
     fill (replicate (2 + length (getOperations prob)) 0) (allDependences prob ! k)
       (opColumnsOf (getOperations prob))"
  unfolding builtTableau_def buildTableau_closed
  by (simp_all del: replicate_Suc replicate.simps list_update.simps)

lemma rowExpr_builtTableau_slack:
  assumes enc: "encodes fill prob delta" and wf: "wellFormedDependences prob"
    and ns: "noSelfDependence prob" and k: "k < length (allDependences prob)"
  shows "rowExpr (builtTableau fill prob lastOp T0) T x (1 + k) =
     slackOf prob delta T x (allDependences prob ! k)"
proof -
  let ?ops = "getOperations prob" and ?dep = "allDependences prob ! k"
  let ?N = "length ?ops" and ?f = "opColumnsOf ?ops"
  let ?a = "varOf prob (getSource ?dep)" and ?b = "varOf prob (getDestination ?dep)"
  let ?s0 = "builtTableau fill prob lastOp T0"
  have dep: "?dep \<in> set (allDependences prob)" using k by simp
  have dist: "distinct ?ops" and src: "getSource ?dep \<in> set ?ops" and dst: "getDestination ?dep \<in> set ?ops"
    using wf dep by (auto simp: wellFormedDependences_def)
  have ne: "getSource ?dep \<noteq> getDestination ?dep" using ns dep by (auto simp: noSelfDependence_def)
  note a = varOf_member [OF dist src] and b = varOf_member [OF dist dst]
  have ab: "?a \<noteq> ?b" using a(2) b(2) ne by metis
  have f1: "\<forall>opn. ?f opn \<noteq> 1" using opColumnsOf_neq_1 by simp
  define row where "row = fillConstraintRow prob (replicate (2 + ?N) 0) ?dep ?f"
  have rowlen: "length row = 2 + ?N" by (simp add: row_def del: replicate_Suc replicate.simps)
  have tab: "tableau ?s0 ! (1 + k) = row[1 := int (delta ?dep)]"
    unfolding builtTableau_fields(7) [OF k] row_def
    using enc f1 dep by (simp add: encodes_def extendsFillConstraintRow_def)
  have lat: "getLatency prob (getSource ?dep) \<le> 2147483648"
    using enc dep by (simp add: encodes_def latenciesInRange_def)
  have rown: "row ! c = (if c = 2 + ?b then - 1 else if c = 2 + ?a then 1
      else if c = 0 then - int (getLatency prob (getSource ?dep)) else 0)" if "c < 2 + ?N" for c
    unfolding row_def using fillConstraintRow_nth [OF that _ _ lat, of ?f] a(3) b(3) by simp
  have e0: "tableau ?s0 ! (1 + k) ! 0 = - int (getLatency prob (getSource ?dep))"
    unfolding tab using rown [of 0] by simp
  have e1: "tableau ?s0 ! (1 + k) ! 1 = int (delta ?dep)" unfolding tab using rowlen by simp
  have "(\<Sum>j<?N. tableau ?s0 ! (1 + k) ! (2 + j) * x ([0..<?N] ! j)) =
      (\<Sum>j<?N. (if j = ?b then - 1 else if j = ?a then 1 else 0) * x j)"
    unfolding tab by (rule sum.cong) (use rown in auto)
  also have "\<dots> = x ?a - x ?b" by (rule sum_two_entries [OF a(1) b(1) ab])
  finally have sm: "(\<Sum>j<?N. tableau ?s0 ! (1 + k) ! (2 + j) * x ([0..<?N] ! j)) = x ?a - x ?b" .
  have "rowExpr ?s0 T x (1 + k) =
      tableau ?s0 ! (1 + k) ! 0 + tableau ?s0 ! (1 + k) ! 1 * T -
      (\<Sum>j<?N. tableau ?s0 ! (1 + k) ! (2 + j) * x ([0..<?N] ! j))"
    by (simp add: rowExpr_def builtTableau_fields(2))
  then show ?thesis unfolding e0 e1 sm by (simp add: slackOf_def)
qed

lemma rowExpr_builtTableau_objective:
  assumes wf: "wellFormedProblem prob lastOp"
  shows "rowExpr (builtTableau fill prob lastOp T0) T x objectiveRow = - x (varOf prob lastOp)"
proof -
  let ?ops = "getOperations prob"
  let ?N = "length ?ops"
  let ?s0 = "builtTableau fill prob lastOp T0"
  have dist: "distinct ?ops" and l: "lastOp \<in> set ?ops" using wf by (auto simp: wellFormedProblem_def wellFormedDependences_def)
  note a = varOf_member [OF dist l]
  let ?row = "(replicate (2 + ?N) (0::int))[2 + varOf prob lastOp := 1]"
  have t0: "tableau ?s0 ! 0 = ?row" unfolding builtTableau_fields(6) a(3) ..
  have "(\<Sum>j<?N. tableau ?s0 ! 0 ! (2 + j) * x ([0..<?N] ! j)) =
      (\<Sum>j<?N. if j = varOf prob lastOp then x j else 0)"
    unfolding t0
    by (rule sum.cong) (auto simp: nth_list_update simp del: replicate_Suc replicate.simps list_update.simps)
  also have "\<dots> = x (varOf prob lastOp)" using a(1) by simp
  finally have sm: "(\<Sum>j<?N. tableau ?s0 ! 0 ! (2 + j) * x ([0..<?N] ! j)) = x (varOf prob lastOp)" .
  have e: "tableau ?s0 ! 0 ! 0 = 0" "tableau ?s0 ! 0 ! 1 = 0"
    unfolding t0
    by (simp_all add: nth_list_update del: replicate_Suc replicate.simps list_update.simps)
  have "rowExpr ?s0 T x 0 =
      tableau ?s0 ! 0 ! 0 + tableau ?s0 ! 0 ! 1 * T -
      (\<Sum>j<?N. tableau ?s0 ! 0 ! (2 + j) * x ([0..<?N] ! j))"
    by (simp add: rowExpr_def builtTableau_fields(2))
  then show ?thesis unfolding e sm by simp
qed

lemma solution_builtTableau:
  assumes "encodes fill prob delta" "wellFormedDependences prob" "noSelfDependence prob"
  shows "solution (builtTableau fill prob lastOp T0) T x \<longleftrightarrow>
     (\<forall>k<length (allDependences prob).
        x (length (getOperations prob) + k) = slackOf prob delta T x (allDependences prob ! k))"
  unfolding solution_def builtTableau_fields
  using rowExpr_builtTableau_slack [OF assms] by simp

lemma dualFeasible_builtTableau: "dualFeasible (builtTableau fill prob lastOp T0)"
proof -
  have "0 \<le> tableau (builtTableau fill prob lastOp T0) ! 0 ! (2 + j)"
    if "j < length (getOperations prob)" for j
    unfolding builtTableau_fields(6)
    using that opColumnsOf_range [of "getOperations prob" lastOp]
    by (auto simp: nth_list_update simp del: replicate_Suc replicate.simps list_update.simps)
  then show ?thesis by (simp add: dualFeasible_def builtTableau_fields(2))
qed

lemma wellFormed_builtTableau_extends:
  assumes "extendsFillConstraintRow fill prob entryT"
  shows "wellFormed (builtTableau fill prob lastOp T0)"
proof -
  have "length (fill (replicate (2 + length (getOperations prob)) 0) dep (opColumnsOf (getOperations prob))) =
      2 + length (getOperations prob)" if "dep \<in> set (allDependences prob)" for dep
    using extends_length [OF assms _ that] opColumnsOf_neq_1 by simp
  then show ?thesis
    unfolding builtTableau_def buildTableau_closed wellFormed_def
    by (auto simp del: replicate_Suc replicate.simps list_update.simps)
qed

lemma wellFormed_builtTableau:
  assumes "encodes fill prob delta"
  shows "wellFormed (builtTableau fill prob lastOp T0)"
  by (rule wellFormed_builtTableau_extends [OF encodes_extends [OF assms]])

lemma varsPartition_builtTableau:
  "varsPartition (length (getOperations prob) + length (allDependences prob))
     (builtTableau fill prob lastOp T0)"
  unfolding builtTableau_def by (rule varsPartition_buildTableau)

lemma lpInvariant_loopStep:
  assumes "lpInvariant s0 n s" "loopStep s s'"
  shows "lpInvariant s0 n s'"
  using assms wellFormed_loopStep [of s s'] varsPartition_loopStep [of s n s']
    dualFeasible_loopStep [of s s'] solution_loopStep [of s s'] objective_loopStep [of s s']
  unfolding lpInvariant_def by metis

lemma lpInvariant_reaches:
  assumes "wellFormed s0" "varsPartition n s0" "dualFeasible s0" "reaches s0 s"
  shows "lpInvariant s0 n s"
proof (rule reaches_invariant [OF assms(4)])
  show "lpInvariant s0 n s0" using assms(1-3) by (simp add: lpInvariant_def)
qed (rule lpInvariant_loopStep)

lemma nonBasic_in_range:
  assumes "varsPartition n s" "j < length (nonBasicVariables s)"
  shows "nonBasicVariables s ! j < n"
proof -
  have "nonBasicVariables s ! j \<in> set (nonBasicVariables s) \<union> set (basicVariables s)"
    using assms(2) by simp
  then show ?thesis unfolding varsPartition_distinct(2) [OF assms(1)] by simp
qed

lemma basic_in_range:
  assumes "varsPartition n s" "i < length (basicVariables s)"
  shows "basicVariables s ! i < n"
proof -
  have "basicVariables s ! i \<in> set (nonBasicVariables s) \<union> set (basicVariables s)"
    using assms(2) by simp
  then show ?thesis unfolding varsPartition_distinct(2) [OF assms(1)] by simp
qed



lemma solved_feasible:
  assumes inv: "lpInvariant s0 n s" and opt: "findPivotRow s = None"
  shows "solution s0 (parameterT s) (basicSolution s)" "nonNegative n (basicSolution s)"
proof -
  have wf: "wellFormed s" and vp: "varsPartition n s" using inv by (simp_all add: lpInvariant_def)
  show "solution s0 (parameterT s) (basicSolution s)"
    using basicSolution_solution [OF vp] inv by (simp add: lpInvariant_def)
  show "nonNegative n (basicSolution s)"
    using basicSolution_nonneg [OF wf opt] by (simp add: nonNegative_def)
qed

lemma solved_optimal:
  assumes inv: "lpInvariant s0 n s"
    and x: "solution s0 (parameterT s) x" "nonNegative n x"
  shows "rowExpr s0 (parameterT s) x objectiveRow \<le> rowExpr s0 (parameterT s) (basicSolution s) objectiveRow"
proof -
  have wf: "wellFormed s" and vp: "varsPartition n s" and df: "dualFeasible s"
    and obj: "\<And>T x. solution s0 T x \<Longrightarrow> rowExpr s T x objectiveRow = rowExpr s0 T x objectiveRow"
    and sol: "\<And>T x. solution s T x \<longleftrightarrow> solution s0 T x"
    using inv by (simp_all add: lpInvariant_def)
  have "\<forall>j<length (nonBasicVariables s). 0 \<le> x (nonBasicVariables s ! j)"
    using x(2) nonBasic_in_range [OF vp] by (simp add: nonNegative_def)
  from objective_upper_bound [OF df this, of "parameterT s"]
  have "rowExpr s (parameterT s) x objectiveRow \<le> rowValue s objectiveRow"
    by (simp add: rowValue_def mult.commute)
  also have "\<dots> = rowExpr s (parameterT s) (basicSolution s) objectiveRow"
    using basicSolution_objective [OF vp] by simp
  also have "\<dots> = rowExpr s0 (parameterT s) (basicSolution s) objectiveRow"
    using obj basicSolution_solution [OF vp] sol by blast
  finally show ?thesis using obj [OF x(1)] by simp
qed

lemma solveStep_success_iff: "solveStep s = Return success \<longleftrightarrow> findPivotRow s = None"
  by (auto simp: solveStep_def Let_def split: option.splits sum.splits if_splits)

lemma respects_of_lp:
  assumes enc: "encodes fill prob delta" and wf: "wellFormedDependences prob"
    and ns: "noSelfDependence prob"
    and sol: "solution (builtTableau fill prob lastOp T0) T x"
    and nn: "nonNegative (length (getOperations prob) + length (allDependences prob)) x"
  shows "respectsDependences prob delta T (\<lambda>opn. nat (x (varOf prob opn)))"
  unfolding respectsDependences_def
proof
  fix dep assume dep: "dep \<in> set (allDependences prob)"
  then obtain k where k: "k < length (allDependences prob)" "allDependences prob ! k = dep"
    by (auto simp: in_set_conv_nth)
  have dist: "distinct (getOperations prob)" and src: "getSource dep \<in> set (getOperations prob)"
    and dst: "getDestination dep \<in> set (getOperations prob)"
    using wf dep by (auto simp: wellFormedDependences_def)
  have "0 \<le> x (varOf prob (getSource dep))" "0 \<le> x (varOf prob (getDestination dep))"
    using nn varOf_member(1) [OF dist src] varOf_member(1) [OF dist dst]
    by (simp_all add: nonNegative_def)
  moreover have "0 \<le> slackOf prob delta T x dep"
    using sol k nn unfolding solution_builtTableau [OF enc wf ns] nonNegative_def
    by (metis add_strict_left_mono)
  ultimately show "int (getLatency prob (getSource dep)) \<le>
      int (nat (x (varOf prob (getDestination dep)))) - int (nat (x (varOf prob (getSource dep)))) +
      int (delta dep) * T"
    by (simp add: slackOf_def)
qed

lemma slackOf_assignmentOf:
  assumes wf: "wellFormedDependences prob" and dep: "dep \<in> set (allDependences prob)"
  shows "slackOf prob delta T (assignmentOf prob delta' T' start) dep =
     int (start (getDestination dep)) - int (start (getSource dep)) +
     int (delta dep) * T - int (getLatency prob (getSource dep))"
proof -
  have dist: "distinct (getOperations prob)" and src: "getSource dep \<in> set (getOperations prob)"
    and dst: "getDestination dep \<in> set (getOperations prob)"
    using wf dep by (auto simp: wellFormedDependences_def)
  show ?thesis
    using varOf_member(1,2) [OF dist src] varOf_member(1,2) [OF dist dst]
    by (simp add: slackOf_def assignmentOf_def)
qed

lemma lp_of_respects:
  assumes enc: "encodes fill prob delta" and wf: "wellFormedDependences prob"
    and ns: "noSelfDependence prob"
    and resp: "respectsDependences prob delta T start"
  shows "solution (builtTableau fill prob lastOp T0) T (assignmentOf prob delta T start)"
    "nonNegative (length (getOperations prob) + length (allDependences prob))
       (assignmentOf prob delta T start)"
proof -
  let ?x = "assignmentOf prob delta T start"
  have slack: "?x (length (getOperations prob) + k) = slackOf prob delta T ?x (allDependences prob ! k)"
    if "k < length (allDependences prob)" for k
  proof -
    have "allDependences prob ! k \<in> set (allDependences prob)" using that by simp
    from slackOf_assignmentOf [OF wf this] show ?thesis
      unfolding slackOf_assignmentOf [OF wf \<open>allDependences prob ! k \<in> set (allDependences prob)\<close>]
      using wf that
      by (simp add: assignmentOf_def slackOf_def wellFormedDependences_def varOf_member)
  qed
  show "solution (builtTableau fill prob lastOp T0) T ?x"
    unfolding solution_builtTableau [OF enc wf ns] using slack by simp
  show "nonNegative (length (getOperations prob) + length (allDependences prob)) ?x"
    unfolding nonNegative_def
  proof (intro allI impI)
    fix v assume v: "v < length (getOperations prob) + length (allDependences prob)"
    show "0 \<le> ?x v"
    proof (cases "v < length (getOperations prob)")
      case True
      then show ?thesis by (simp add: assignmentOf_def)
    next
      case False
      then obtain k where k: "v = length (getOperations prob) + k" "k < length (allDependences prob)"
        using v by (metis add_diff_inverse_nat nat_add_left_cancel_less)
      have dep: "allDependences prob ! k \<in> set (allDependences prob)" using k(2) by simp
      have "0 \<le> slackOf prob delta T ?x (allDependences prob ! k)"
        unfolding slackOf_assignmentOf [OF wf dep]
        using resp dep by (simp add: respectsDependences_def)
      then show ?thesis unfolding k(1) slack [OF k(2)] .
    qed
  qed
qed

lemma assignmentOf_varOf:
  assumes "wellFormedDependences prob" "opn \<in> set (getOperations prob)"
  shows "assignmentOf prob delta T start (varOf prob opn) = int (start opn)"
  using assms varOf_member(1,2) [of prob opn]
  by (simp add: assignmentOf_def wellFormedDependences_def)

lemma fold_setStartTime_value:
  assumes "\<forall>(k, t)\<in>set ws. t = F k"
  shows "startTime (fold (\<lambda>(opn, t) p. setStartTime p opn t) ws p) opn =
     (if opn \<in> fst ` set ws then Some (F opn) else startTime p opn)"
  using assms
proof (induction ws arbitrary: p rule: rev_induct)
  case Nil
  then show ?case by simp
next
  case (snoc w ws)
  obtain k t where w: "w = (k, t)" by (cases w)
  have t: "t = F k" using snoc.prems w by simp
  have "\<forall>(k, t)\<in>set ws. t = F k" using snoc.prems by simp
  from snoc.IH [OF this, of p] show ?case
    unfolding w using t by (auto simp: setStartTime_def)
qed

lemma storeStartTimes_value:
  assumes dist: "distinct (getOperations prob)"
    and vp: "varsPartition (length (getOperations prob) + d) s"
    and opn: "opn \<in> set (getOperations prob)"
  shows "startTime (storeStartTimes prob s) opn = Some (startOf prob s opn)"
proof -
  let ?ops = "getOperations prob"
  let ?ws = "basicStartTimes ?ops s @ nonBasicStartTimes ?ops s"
  note dv = varsPartition_distinct(1) [OF vp]
  have val: "\<forall>(k, t)\<in>set ?ws. t = startOf prob s k"
  proof (intro ballI, clarify)
    fix k t assume "(k, t) \<in> set ?ws"
    then consider (basic) "(k, t) \<in> set (basicStartTimes ?ops s)"
      | (nonBasic) "(k, t) \<in> set (nonBasicStartTimes ?ops s)" by auto
    then show "t = startOf prob s k"
    proof cases
      case basic
      then obtain i where i: "i < length (basicVariables s)" "basicVariables s ! i < length ?ops"
        "k = ?ops ! (basicVariables s ! i)" "t = nat (rowValue s (1 + i))"
        by (auto simp: basicStartTimes_def Let_def rowValue_def mult.commute split: if_splits)
      have "varOf prob k = basicVariables s ! i" unfolding i(3) by (rule varOf_nth(1) [OF dist i(2)])
      then show ?thesis
        unfolding i(4) startOf_def using basicSolution_basic [of s i] dv i(1) by simp
    next
      case nonBasic
      then obtain j where j: "j < length (nonBasicVariables s)" "nonBasicVariables s ! j < length ?ops"
        "k = ?ops ! (nonBasicVariables s ! j)" "t = 0"
        by (auto simp: nonBasicStartTimes_def Let_def split: if_splits)
      have "varOf prob k = nonBasicVariables s ! j" unfolding j(3) by (rule varOf_nth(1) [OF dist j(2)])
      then show ?thesis
        unfolding j(4) startOf_def
        using basicSolution_nonBasic [OF nonBasic_not_basic [OF vp j(1)]] by simp
    qed
  qed
  have "set (map fst ?ws) = set ?ops"
    using startTimes_once [OF vp] by (metis mset_eq_setD)
  then have "opn \<in> fst ` set ?ws" using opn by (metis set_map)
  then show ?thesis
    unfolding storeStartTimes_def fold_setStartTime_value [OF val] by simp
qed


lemma solved_invariant:
  assumes "encodes fill prob delta" "reaches (builtTableau fill prob lastOp T0) s'"
  shows "lpInvariant (builtTableau fill prob lastOp T0)
     (length (getOperations prob) + length (allDependences prob)) s'"
  by (rule lpInvariant_reaches [OF wellFormed_builtTableau [OF assms(1)]
        varsPartition_builtTableau dualFeasible_builtTableau assms(2)])

lemma solved_respects:
  assumes enc: "encodes fill prob delta" and wf: "wellFormedDependences prob"
    and ns: "noSelfDependence prob"
    and reach: "reaches (builtTableau fill prob lastOp T0) s'" and opt: "findPivotRow s' = None"
  shows "respectsDependences prob delta (parameterT s') (startOf prob s')"
proof -
  note inv = solved_invariant [OF enc reach]
  from respects_of_lp [OF enc wf ns solved_feasible [OF inv opt]]
  show ?thesis unfolding startOf_def .
qed

lemma solved_last_minimal:
  assumes enc: "encodes fill prob delta" and wf: "wellFormedProblem prob lastOp"
    and ns: "noSelfDependence prob"
    and reach: "reaches (builtTableau fill prob lastOp T0) s'" and opt: "findPivotRow s' = None"
    and resp: "respectsDependences prob delta (parameterT s') start"
  shows "startOf prob s' lastOp \<le> start lastOp"
proof -
  note inv = solved_invariant [OF enc reach]
  have l: "lastOp \<in> set (getOperations prob)" and wfd: "wellFormedDependences prob"
    using wf by (simp_all add: wellFormedProblem_def)
  from solved_optimal [OF inv lp_of_respects [OF enc wfd ns resp]]
  have "basicSolution s' (varOf prob lastOp) \<le> int (start lastOp)"
    unfolding rowExpr_builtTableau_objective [OF wf] assignmentOf_varOf [OF wfd l] by simp
  then show ?thesis by (simp add: startOf_def)
qed


lemma path_bound:
  assumes "respectsDependences prob (\<lambda>dep. 0) T start" "pathTo prob opn w"
  shows "w \<le> start opn"
  using assms(2)
proof (induction rule: pathTo.induct)
  case (start opn)
  then show ?case by simp
next
  case (step dep w)
  have "int (getLatency prob (getSource dep)) \<le>
      int (start (getDestination dep)) - int (start (getSource dep))"
    using assms(1) step(2) by (simp add: respectsDependences_def)
  then show ?case using step(3) by linarith
qed

lemma longestPathTo_max:
  assumes "respectsDependences prob (\<lambda>dep. 0) T start" "opn \<in> set (getOperations prob)"
  shows "criticalPathLength prob opn (longestPathTo prob opn)"
proof -
  let ?S = "{w. pathTo prob opn w}"
  have "?S \<subseteq> {..start opn}" using path_bound [OF assms(1)] by auto
  then have fin: "finite ?S" by (rule finite_subset) simp
  have ne: "?S \<noteq> {}" using pathTo.start [OF assms(2)] by auto
  have "Max ?S \<in> ?S" by (rule Max_in [OF fin ne])
  moreover have "w \<le> Max ?S" if "pathTo prob opn w" for w using that fin by (simp add: Max_ge)
  ultimately show ?thesis by (simp add: criticalPathLength_def longestPathTo_def)
qed

lemma longestPathTo_respects:
  assumes wf: "wellFormedDependences prob" and resp: "respectsDependences prob (\<lambda>dep. 0) T start"
  shows "respectsDependences prob (\<lambda>dep. 0) T' (longestPathTo prob)"
  unfolding respectsDependences_def
proof
  fix dep assume dep: "dep \<in> set (allDependences prob)"
  then have src: "getSource dep \<in> set (getOperations prob)"
    and dst: "getDestination dep \<in> set (getOperations prob)"
    using wf by (auto simp: wellFormedDependences_def)
  have "pathTo prob (getSource dep) (longestPathTo prob (getSource dep))"
    using longestPathTo_max [OF resp src] by (simp add: criticalPathLength_def)
  then have "pathTo prob (getDestination dep)
      (longestPathTo prob (getSource dep) + getLatency prob (getSource dep))"
    using dep by (rule pathTo.step)
  then have "longestPathTo prob (getSource dep) + getLatency prob (getSource dep) \<le>
      longestPathTo prob (getDestination dep)"
    using longestPathTo_max [OF resp dst] by (simp add: criticalPathLength_def)
  then show "int (getLatency prob (getSource dep)) \<le>
      int (longestPathTo prob (getDestination dep)) - int (longestPathTo prob (getSource dep)) +
      int 0 * T'"
    by simp
qed

lemma respects_T_irrelevant:
  "respectsDependences prob (\<lambda>dep. 0) T start \<longleftrightarrow> respectsDependences prob (\<lambda>dep. 0) T' start"
  by (simp add: respectsDependences_def)

lemma solved_critical_path:
  assumes wf: "wellFormedProblem prob lastOp" and ns: "noSelfDependence prob"
    and lat: "latenciesInRange prob"
    and reach: "reaches (initialTableau prob lastOp) s'" and opt: "findPivotRow s' = None"
  shows "criticalPathLength prob lastOp (startOf prob s' lastOp)"
proof -
  note enc = encodes_fillConstraintRow [OF lat]
  have wfd: "wellFormedDependences prob" using wf by (simp add: wellFormedProblem_def)
  have s0: "initialTableau prob lastOp = builtTableau (fillConstraintRow prob) prob lastOp 0"
    by (simp add: initialTableau_def builtTableau_def)
  note reach' = reach [unfolded s0]
  have l: "lastOp \<in> set (getOperations prob)" using wf by (simp add: wellFormedProblem_def)
  note resp = solved_respects [OF enc wfd ns reach' opt]
  have "longestPathTo prob lastOp \<le> startOf prob s' lastOp"
    using longestPathTo_max [OF resp l] path_bound [OF resp] by (simp add: criticalPathLength_def)
  moreover have "startOf prob s' lastOp \<le> longestPathTo prob lastOp"
    by (rule solved_last_minimal [OF enc wf ns reach' opt longestPathTo_respects [OF wfd resp]])
  ultimately show ?thesis using longestPathTo_max [OF resp l] by simp
qed

lemma acyclic_noSelfDependence:
  assumes "acyclic (dependenceGraph prob)"
  shows "noSelfDependence prob"
  unfolding noSelfDependence_def
proof
  fix dep assume "dep \<in> set (allDependences prob)"
  then have "(getSource dep, getDestination dep) \<in> dependenceGraph prob"
    by (auto simp: dependenceGraph_def)
  then show "getSource dep \<noteq> getDestination dep"
    using assms by (metis acyclic_def r_into_trancl')
qed

lemma schedule_correct:
  assumes wf: "wellFormedProblem prob lastOp" and dag: "acyclic (dependenceGraph prob)"
    and lat: "latenciesInRange prob"
    and run: "schedule prob lastOp = Some (Inr (success, p'))"
  shows "\<forall>dep\<in>set (allDependences prob).
      \<exists>ts td. startTime p' (getSource dep) = Some ts \<and> startTime p' (getDestination dep) = Some td \<and>
        int (getLatency prob (getSource dep)) \<le> int td - int ts"
    and "\<exists>w. startTime p' lastOp = Some w \<and> criticalPathLength prob lastOp w"
proof -
  note ns = acyclic_noSelfDependence [OF dag]
  note enc = encodes_fillConstraintRow [OF lat]
  have wfd: "wellFormedDependences prob" using wf by (simp add: wellFormedProblem_def)
  obtain s' where s': "solveTableau (initialTableau prob lastOp) = Some (Inr (success, s'))"
    "p' = storeStartTimes prob s'"
    using run unfolding schedule_success_iff by blast
  have reach: "reaches (initialTableau prob lastOp) s'" and opt: "findPivotRow s' = None"
    using s'(1) unfolding solveTableau_result_iff solveStep_success_iff by simp_all
  have s0: "initialTableau prob lastOp = builtTableau (fillConstraintRow prob) prob lastOp 0"
    by (simp add: initialTableau_def builtTableau_def)
  note reach' = reach [unfolded s0]
  have vp: "varsPartition (length (getOperations prob) + length (allDependences prob)) s'"
    using solved_invariant [OF enc reach'] by (simp add: lpInvariant_def)
  have dist: "distinct (getOperations prob)" and l: "lastOp \<in> set (getOperations prob)"
    using wf by (simp_all add: wellFormedProblem_def wellFormedDependences_def)
  have st: "startTime p' opn = Some (startOf prob s' opn)" if "opn \<in> set (getOperations prob)" for opn
    unfolding s'(2) by (rule storeStartTimes_value [OF dist vp that])
  note resp = solved_respects [OF enc wfd ns reach' opt]
  show "\<forall>dep\<in>set (allDependences prob).
      \<exists>ts td. startTime p' (getSource dep) = Some ts \<and> startTime p' (getDestination dep) = Some td \<and>
        int (getLatency prob (getSource dep)) \<le> int td - int ts"
  proof
    fix dep assume dep: "dep \<in> set (allDependences prob)"
    then have "getSource dep \<in> set (getOperations prob)" "getDestination dep \<in> set (getOperations prob)"
      using wf by (auto simp: wellFormedProblem_def wellFormedDependences_def)
    then show "\<exists>ts td. startTime p' (getSource dep) = Some ts \<and>
        startTime p' (getDestination dep) = Some td \<and>
        int (getLatency prob (getSource dep)) \<le> int td - int ts"
      using st resp dep by (simp add: respectsDependences_def)
  qed
  show "\<exists>w. startTime p' lastOp = Some w \<and> criticalPathLength prob lastOp w"
    using st [OF l] solved_critical_path [OF wf ns lat reach opt] by simp
qed


text \<open>
  With latencies in range the acyclic scheduler is correct. When it succeeds on a
  well-formed problem whose dependences form an acyclic graph, every operation of a
  dependence has a start time, the start times satisfy \<open>start dst - start src \<ge> latency\<close>
  for every dependence, and the start time of the last operation is the critical-path
  length.
\<close>

lemma schedule_acyclic_in_range:
  "wellFormedProblem prob lastOp \<and> acyclic (dependenceGraph prob) \<and> latenciesInRange prob \<and>
   schedule prob lastOp = Some (Inr (success, p')) \<longrightarrow>
     (\<forall>dep\<in>set (allDependences prob).
        \<exists>ts td. startTime p' (getSource dep) = Some ts \<and> startTime p' (getDestination dep) = Some td \<and>
          int (getLatency prob (getSource dep)) \<le> int td - int ts) \<and>
     (\<exists>w. startTime p' lastOp = Some w \<and> criticalPathLength prob lastOp w)"
  using schedule_correct [of prob lastOp p'] by blast

lemma chain3_wellFormed:
  "wellFormedProblem chain3 2" "acyclic (dependenceGraph chain3)" "latenciesInRange chain3"
proof -
  have deps: "allDependences chain3 = [Dependence 0 1, Dependence 1 2]"
    by (simp add: allDependences_def chain3_def)
  show "wellFormedProblem chain3 2"
    unfolding wellFormedProblem_def wellFormedDependences_def deps by (simp add: chain3_def)
  have g: "dependenceGraph chain3 = {(0, 1), (1, 2)}"
    unfolding dependenceGraph_def deps by auto
  show "acyclic (dependenceGraph chain3)"
    unfolding g by (rule acyclicI_order [where f = "\<lambda>x. 2 - x"]) auto
  show "latenciesInRange chain3"
    unfolding latenciesInRange_def deps by (simp add: chain3_def)
qed

lemma chain3_critical_path:
  "\<exists>p'. schedule chain3 2 = Some (Inr (success, p')) \<and> startTime p' 2 = Some 5 \<and>
     criticalPathLength chain3 2 5"
proof -
  obtain p' where p': "schedule chain3 2 = Some (Inr (success, p'))"
    using result_of_projection [OF chain3_succeeds] by blast
  have "startTime p' 2 = Some 5" using chain3_run p' by (simp add: observe_def)
  then show ?thesis
    using schedule_acyclic_in_range [of chain3 2 p'] chain3_wellFormed p' by auto
qed

lemma hugeLatency_wellFormed:
  "wellFormedProblem hugeLatency 1" "acyclic (dependenceGraph hugeLatency)"
proof -
  have deps: "allDependences hugeLatency = [Dependence 0 1]"
    by (simp add: allDependences_def hugeLatency_def)
  show "wellFormedProblem hugeLatency 1"
    unfolding wellFormedProblem_def wellFormedDependences_def deps by (simp add: hugeLatency_def)
  have g: "dependenceGraph hugeLatency = {(0, 1)}"
    unfolding dependenceGraph_def deps by auto
  show "acyclic (dependenceGraph hugeLatency)"
    unfolding g by (rule acyclicI_order [where f = "\<lambda>x. 1 - x"]) auto
qed

text \<open>
  C3. On the two operations with \<open>A \<rightarrow> B\<close>, where \<open>A\<close> has the latency \<open>2\<^sup>3\<^sup>2 - 1\<close>, the
  acyclic scheduler reports success and writes the start times 0 and 0, which do not
  satisfy \<open>start B - start A \<ge> latency\<close>: \<open>fillConstraintRow\<close> negates the unsigned
  latency, which wraps to 1, so that the row \<open>[1, 0, 1, -1]\<close> of the dependence is not
  violated and the loop returns at once. (With latencies up to \<open>2\<^sup>3\<^sup>1\<close> the scheduler does
  what C3 says, \<open>schedule_acyclic_in_range\<close>, and the chain \<open>A \<rightarrow> B \<rightarrow> C\<close> with latencies 2
  and 3 gets the start times 0, 2 and 5, \<open>chain3_run\<close>.)
\<close>

theorem schedule_wraps_huge_latency:
  "tableau (initialTableau hugeLatency 1) ! 1 = [1, 0, 1, - 1] \<and>
   observe (\<lambda>p. map (startTime p) [0, 1]) (schedule hugeLatency 1) =
     Some (Inr (success, [Some 0, Some 0])) \<and>
   getLatency hugeLatency (getSource (Dependence 0 1)) = 4294967295"
proof -
  let ?init = "\<lparr>parameterT = 0, tableau = [[0, 0, 0, 1], [1, 0, 1, - 1]],
      implicitBasicVariableColumnVector = [0, 0], nonBasicVariables = [0, 1],
      basicVariables = [2], nRows = 2, nColumns = 4\<rparr>"
  have ops: "getOperations hugeLatency = [0, 1]" by (simp add: hugeLatency_def)
  have deps: "allDependences hugeLatency = [Dependence 0 1]"
    by (simp add: allDependences_def hugeLatency_def)
  have lat: "getLatency hugeLatency 0 = 4294967295" by (simp add: hugeLatency_def)
  have cols: "opColumnsOf [0, 1] 0 = 2" "opColumnsOf [0, 1] 1 = 3"
    using opColumnsOf_nth [of "[0, 1]" 0] opColumnsOf_nth [of "[0, 1]" 1] by simp_all
  have wrap: "unsignedToInt (negateUnsigned 4294967295) = 1"
    by (simp add: unsignedToInt_def negateUnsigned_def)
  have row: "fillConstraintRow hugeLatency [0, 0, 0, 0] (Dependence 0 1) (opColumnsOf [0, 1]) =
      [1, 0, 1, - 1]"
    unfolding fillConstraintRow_def Let_def dependence.sel lat cols parameter1Column_def
      of_nat_numeral wrap
    by (simp add: eval_nat_numeral)
  have cols': "opColumnsOf [0, Suc 0] 0 = 2" "opColumnsOf [0, Suc 0] (Suc 0) = 3"
    using cols by simp_all
  have row': "fillConstraintRow hugeLatency [0, 0, 0, 0] (Dependence 0 (Suc 0))
      (opColumnsOf [0, Suc 0]) = [1, 0, 1, - 1]"
    using row by simp
  have init: "initialTableau hugeLatency 1 = ?init"
    unfolding initialTableau_def buildTableau_closed ops deps
    by (simp add: cols' row' eval_nat_numeral)
  have "solveStep ?init = Return success" by code_simp
  then have solve: "solveTableau (initialTableau hugeLatency 1) = Some (Inr (success, ?init))"
    unfolding init by (rule solveTableau_Return)
  have run: "schedule hugeLatency 1 = Some (Inr (success, storeStartTimes hugeLatency ?init))"
    unfolding schedule_success_iff using solve by simp
  have vp: "varsPartition (length (getOperations hugeLatency) + 1) ?init"
    by (simp add: varsPartition_def ops upt_rec eval_nat_numeral)
  have start: "startTime (storeStartTimes hugeLatency ?init) opn = Some 0"
    if "opn \<in> set (getOperations hugeLatency)" for opn
  proof -
    have "opn = 0 \<or> opn = 1" using that by (auto simp: ops)
    then have "varOf hugeLatency opn < 2" unfolding varOf_def ops using cols by auto
    then have "basicSolution ?init (varOf hugeLatency opn) = 0"
      by (simp add: basicSolution_def)
    then have "startOf hugeLatency ?init opn = 0" by (simp add: startOf_def)
    moreover have "distinct (getOperations hugeLatency)" by (simp add: ops)
    from storeStartTimes_value [OF this vp that]
    have "startTime (storeStartTimes hugeLatency ?init) opn = Some (startOf hugeLatency ?init opn)" .
    ultimately show ?thesis by simp
  qed
  have "observe (\<lambda>p. map (startTime p) [0, 1]) (schedule hugeLatency 1) =
      Some (Inr (success, [Some 0, Some 0]))"
    unfolding run using start [of 0] start [of 1] by (simp add: observe_def ops)
  then show ?thesis unfolding init using lat by simp
qed





section \<open>Pivots preserve the entries and the partition\<close>

lemma linked_refl [simp]: "linked ends E a a"
  by (simp add: linked_def)

lemma linked_trans: "linked ends E a b \<Longrightarrow> linked ends E b c \<Longrightarrow> linked ends E a c"
  by (auto simp: linked_def)

lemma links_sym: "(a, b) \<in> links ends E \<Longrightarrow> (b, a) \<in> links ends E"
  by (auto simp: links_def)

lemma linked_sym: "linked ends E a b \<Longrightarrow> linked ends E b a"
proof -
  have "sym (links ends E)" by (auto simp: sym_def links_def)
  then have "sym ((links ends E)\<^sup>*)" by (rule sym_rtrancl)
  then show "linked ends E a b \<Longrightarrow> linked ends E b a" by (auto simp: linked_def sym_def)
qed

lemma linked_mono: "E \<subseteq> F \<Longrightarrow> linked ends E a b \<Longrightarrow> linked ends F a b"
proof -
  assume "E \<subseteq> F"
  then have "links ends E \<subseteq> links ends F" by (auto simp: links_def)
  then have "(links ends E)\<^sup>* \<subseteq> (links ends F)\<^sup>*" by (rule rtrancl_mono)
  then show "linked ends E a b \<Longrightarrow> linked ends F a b" by (auto simp: linked_def)
qed

lemma linked_edge: "v \<in> E \<Longrightarrow> linked ends E (fst (ends v)) (snd (ends v))"
proof -
  assume "v \<in> E"
  then have "(fst (ends v), snd (ends v)) \<in> links ends E"
    unfolding links_def by (auto intro!: bexI [of _ v])
  then show ?thesis unfolding linked_def by (rule r_into_rtrancl)
qed

text \<open>A potential with tension 0 on every edge of \<open>E\<close> is constant on linked nodes.\<close>

lemma linked_constant:
  assumes "\<forall>v\<in>E. tension ends p v = 0" "linked ends E a b"
  shows "p a = p b"
  using assms(2) unfolding linked_def
proof (induction rule: rtrancl_induct)
  case base
  then show ?case by simp
next
  case (step b c)
  then obtain v where "v \<in> E" "(b, c) = ends v \<or> (c, b) = ends v" by (auto simp: links_def)
  then have "p b = p c" using assms(1) by (auto simp: tension_def dest!: bspec [where x = v]) (metis fst_conv snd_conv)+
  then show ?case using step by simp
qed

text \<open>Removing one edge: a node linked to \<open>c\<close> stays linked to \<open>c\<close> or to an end of the edge.\<close>

lemma linked_remove:
  assumes "linked ends E a c"
  shows "linked ends (E - {e}) a c \<or> linked ends (E - {e}) a (fst (ends e)) \<or>
     linked ends (E - {e}) a (snd (ends e))"
  using assms unfolding linked_def
proof (induction rule: converse_rtrancl_induct)
  case base
  then show ?case by simp
next
  case (step a b)
  from step(1) obtain v where v: "v \<in> E" "(a, b) = ends v \<or> (b, a) = ends v"
    by (auto simp: links_def)
  show ?case
  proof (cases "v = e")
    case True
    then have "a = fst (ends e) \<or> a = snd (ends e)" using v(2) by (metis fst_conv snd_conv)
    then show ?thesis by auto
  next
    case False
    then have "(a, b) \<in> links ends (E - {e})" using v by (auto simp: links_def)
    then show ?thesis using step(3) by (meson converse_rtrancl_into_rtrancl)
  qed
qed

lemma two_sides:
  assumes sp: "spanning ends rootNode n s" and e: "e < n"
    and u: "linked ends (set (nonBasicVariables s)) u rootNode"
  shows "linked ends (set (nonBasicVariables s) - {e}) u (fst (ends e)) \<or>
     linked ends (set (nonBasicVariables s) - {e}) u (snd (ends e))"
proof -
  let ?E = "set (nonBasicVariables s)"
  have "linked ends ?E rootNode (fst (ends e))"
    using sp e by (auto simp: spanning_def intro: linked_sym)
  from linked_remove [OF this, of e]
  have rootNode: "linked ends (?E - {e}) rootNode (fst (ends e)) \<or> linked ends (?E - {e}) rootNode (snd (ends e))"
    by auto
  from linked_remove [OF u, of e] show ?thesis using rootNode by (auto intro: linked_trans)
qed

lemma tension_two_valued:
  assumes inv: "networkInvariant ends rootNode n s"
    and j: "j < length (nonBasicVariables s)"
    and p: "\<forall>j'<length (nonBasicVariables s).
        tension ends p (nonBasicVariables s ! j') = (if j' = j then - 1 else 0)"
    and v: "v < n"
  shows "tension ends p v \<in> {- 1, 0, 1}"
proof -
  let ?nb = "nonBasicVariables s"
  let ?e = "?nb ! j"
  let ?R = "set ?nb - {?e}"
  have sp: "spanning ends rootNode n s" and vp: "varsPartition n s"
    using inv by (simp_all add: networkInvariant_def)
  have e: "?e < n" by (rule nonBasic_in_range [OF vp j])
  have zero: "\<forall>w\<in>?R. tension ends p w = 0"
  proof
    fix w assume "w \<in> ?R"
    then obtain j' where "j' < length ?nb" "?nb ! j' = w" "w \<noteq> ?e" by (auto simp: in_set_conv_nth)
    then show "tension ends p w = 0" using p by (metis (full_types))
  qed
  have ends: "p (fst (ends ?e)) - p (snd (ends ?e)) = - 1" using p j by (simp add: tension_def)
  have val: "p u = p (fst (ends ?e)) \<or> p u = p (snd (ends ?e))" if "linked ends (set ?nb) u rootNode" for u
    using two_sides [OF sp e that] linked_constant [OF zero] by blast
  have "linked ends (set ?nb) (fst (ends v)) rootNode" "linked ends (set ?nb) (snd (ends v)) rootNode"
    using sp v by (simp_all add: spanning_def)
  from val [OF this(1)] val [OF this(2)] show ?thesis using ends by (auto simp: tension_def)
qed

lemma unitEntries_network:
  assumes inv: "networkInvariant ends rootNode n s"
  shows "unitEntries s"
  unfolding unitEntries_def
proof (intro allI impI)
  fix r c
  assume rc: "firstConstraintRow \<le> r \<and> r < nRows s \<and> firstNonBasicVariableColumn \<le> c \<and> c < nColumns s"
  have wf: "wellFormed s" and vp: "varsPartition n s" and cc: "cutColumns ends s"
    using inv by (simp_all add: networkInvariant_def)
  have i: "r - 1 < length (basicVariables s)" "1 + (r - 1) = r"
    and j: "c - 2 < length (nonBasicVariables s)" "2 + (c - 2) = c"
    using rc wf by (auto simp: wellFormed_def)
  obtain p where p: "\<forall>i<length (basicVariables s).
      tableau s ! (1 + i) ! (2 + (c - 2)) = tension ends p (basicVariables s ! i)"
    "\<forall>j'<length (nonBasicVariables s).
      tension ends p (nonBasicVariables s ! j') = (if j' = c - 2 then - 1 else 0)"
    using cc j(1) unfolding cutColumns_def by force
  have "tableau s ! r ! c = tension ends p (basicVariables s ! (r - 1))"
    using p(1) i j(2) by (metis)
  then show "tableau s ! r ! c \<in> {- 1, 0, 1}"
    using tension_two_valued [OF inv j(1) p(2) basic_in_range [OF vp i(1)]] by simp
qed

lemma tension_combine:
  "tension ends (\<lambda>u. p u + a * q u) v = tension ends p v + a * tension ends q v"
  by (simp add: tension_def algebra_simps)

lemma cutColumns_pivoted:
  assumes cc: "cutColumns ends s" and pv: "pivotable s pr pc"
  shows "cutColumns ends (pivoted s pr pc)"
  unfolding cutColumns_def pivoted_fields length_list_update
proof (intro allI impI)
  fix j assume j: "j < length (nonBasicVariables s)"
  let ?tab = "tableau s" and ?nb = "nonBasicVariables s" and ?bs = "basicVariables s"
  let ?i0 = "pr - 1" and ?j0 = "pc - 2"
  note d = pivotable_dims [OF pv]
  have elem: "?tab ! pr ! pc = - 1" using pv by (simp add: pivotable_def)
  obtain p where p: "\<forall>i<length ?bs. ?tab ! (1 + i) ! (2 + j) = tension ends p (?bs ! i)"
    "\<forall>j'<length ?nb. tension ends p (?nb ! j') = (if j' = j then - 1 else 0)"
    using cc j unfolding cutColumns_def by force
  obtain q where q: "\<forall>i<length ?bs. ?tab ! (1 + i) ! (2 + ?j0) = tension ends q (?bs ! i)"
    "\<forall>j'<length ?nb. tension ends q (?nb ! j') = (if j' = ?j0 then - 1 else 0)"
    using cc d(2) unfolding cutColumns_def by force
  have qb: "tension ends q (?bs ! ?i0) = - 1" using q(1) d(3,4,5) elem by (metis)
  have pb: "tension ends p (?bs ! ?i0) = ?tab ! pr ! (2 + j)" using p(1) d(3,5) by (metis)
  have qi: "tension ends q (?bs ! i) = ?tab ! (1 + i) ! pc" if "i < length ?bs" for i
    using q(1) that d(4) by (metis)
  have rowlen: "length (?tab ! (1 + i)) = 2 + length ?nb" "1 + i < length ?tab" if "i < length ?bs" for i
    using d(6) [of "1 + i"] d(7) that by simp_all
  have cj: "2 + j < 2 + length ?nb" using j by simp
  show "\<exists>p'. (\<forall>i<length ?bs.
           pivotTableau ?tab pr pc ! (firstConstraintRow + i) ! (firstNonBasicVariableColumn + j) =
             tension ends p' (?bs[?i0 := ?nb ! ?j0] ! i)) \<and>
        (\<forall>j'<length ?nb.
           tension ends p' (?nb[?j0 := ?bs ! ?i0] ! j') = (if j' = j then - 1 else 0))"
  proof (cases "j = ?j0")
    case True
    have c: "2 + j = pc" using True d(4) by simp
    have "pivotTableau ?tab pr pc ! (1 + i) ! (2 + j) = tension ends q (?bs[?i0 := ?nb ! ?j0] ! i)"
      if i: "i < length ?bs" for i
    proof (cases "i = ?i0")
      case True
      then show ?thesis
        using rowlen [OF i] cj d(5) c q(2) d(2) i by (simp add: pivotTableau_nth)
    next
      case False
      then have "1 + i \<noteq> pr" using d(5) by auto
      then show ?thesis
        using rowlen [OF i] cj c qi [OF i] False by (simp add: pivotTableau_nth)
    qed
    moreover have "tension ends q (?nb[?j0 := ?bs ! ?i0] ! j') = (if j' = j then - 1 else 0)"
      if "j' < length ?nb" for j'
      using that q(2) qb True by (simp add: nth_list_update)
    ultimately show ?thesis by (intro exI [of _ q]) simp
  next
    case False
    let ?a = "?tab ! pr ! (2 + j)"
    let ?p' = "\<lambda>u. p u + ?a * q u"
    have c: "2 + j \<noteq> pc" using False d(4) by auto
    have "pivotTableau ?tab pr pc ! (1 + i) ! (2 + j) = tension ends ?p' (?bs[?i0 := ?nb ! ?j0] ! i)"
      if i: "i < length ?bs" for i
    proof (cases "i = ?i0")
      case True
      have "tension ends p (?nb ! ?j0) = 0" "tension ends q (?nb ! ?j0) = - 1"
        using p(2) q(2) d(2) False by auto
      then show ?thesis
        unfolding tension_combine
        using True rowlen [OF i] cj d(5) c i by (simp add: pivotTableau_nth)
    next
      case ne: False
      then have "1 + i \<noteq> pr" using d(5) by auto
      then show ?thesis
        unfolding tension_combine
        using rowlen [OF i] cj c qi [OF i] p(1) i ne by (simp add: pivotTableau_nth mult.commute)
    qed
    moreover have "tension ends ?p' (?nb[?j0 := ?bs ! ?i0] ! j') = (if j' = j then - 1 else 0)"
      if j': "j' < length ?nb" for j'
    proof (cases "j' = ?j0")
      case True
      then show ?thesis
        unfolding tension_combine using j' pb qb False by simp
    next
      case ne: False
      then show ?thesis
        unfolding tension_combine using j' p(2) q(2) by simp
    qed
    ultimately show ?thesis by (intro exI [of _ ?p']) simp
  qed
qed

lemma spanning_pivoted:
  assumes inv: "networkInvariant ends rootNode n s" and pv: "pivotable s pr pc"
  shows "spanning ends rootNode n (pivoted s pr pc)"
proof -
  let ?tab = "tableau s" and ?nb = "nonBasicVariables s" and ?bs = "basicVariables s"
  let ?i0 = "pr - 1" and ?j0 = "pc - 2"
  let ?e = "?nb ! ?j0" and ?b = "?bs ! ?i0"
  let ?E = "set ?nb"
  let ?R = "?E - {?e}"
  let ?E' = "insert ?b ?R"
  note d = pivotable_dims [OF pv]
  have elem: "?tab ! pr ! pc = - 1" using pv by (simp add: pivotable_def)
  have sp: "spanning ends rootNode n s" and vp: "varsPartition n s" and cc: "cutColumns ends s"
    using inv by (simp_all add: networkInvariant_def)
  have e: "?e < n" by (rule nonBasic_in_range [OF vp d(2)])
  have b: "?b < n" by (rule basic_in_range [OF vp d(3)])
  have dnb: "distinct ?nb" using varsPartition_distinct(1) [OF vp] by simp
  have set': "set (nonBasicVariables (pivoted s pr pc)) = ?E'"
    unfolding pivoted_fields by (rule set_update_distinct [OF dnb d(2)])
  obtain q where q: "\<forall>i<length ?bs. ?tab ! (1 + i) ! (2 + ?j0) = tension ends q (?bs ! i)"
    "\<forall>j'<length ?nb. tension ends q (?nb ! j') = (if j' = ?j0 then - 1 else 0)"
    using cc d(2) unfolding cutColumns_def by force
  have qb: "tension ends q ?b = - 1" using q(1) d(3,4,5) elem by (metis)
  have qe: "tension ends q ?e = - 1" using q(2) d(2) by simp
  have zero: "\<forall>w\<in>?R. tension ends q w = 0"
  proof
    fix w assume "w \<in> ?R"
    then obtain j' where "j' < length ?nb" "?nb ! j' = w" "w \<noteq> ?e" by (auto simp: in_set_conv_nth)
    then show "tension ends q w = 0" using q(2) by (metis (full_types))
  qed
  note const = linked_constant [OF zero]
  have side: "linked ends ?R u (fst (ends ?e)) \<or> linked ends ?R u (snd (ends ?e))"
    if "linked ends ?E u rootNode" for u
    by (rule two_sides [OF sp e that])
  have bt: "linked ends ?E (fst (ends ?b)) rootNode" and bh: "linked ends ?E (snd (ends ?b)) rootNode"
    using sp b by (simp_all add: spanning_def)
  have R': "linked ends ?E' x y" if "linked ends ?R x y" for x y
    using that by (rule linked_mono [rotated]) auto
  have bedge: "linked ends ?E' (fst (ends ?b)) (snd (ends ?b))"
    by (rule linked_edge) simp
  have joined: "linked ends ?E' (fst (ends ?e)) (snd (ends ?e))"
  proof -
    have neq: "q (fst (ends ?b)) \<noteq> q (snd (ends ?b))" "q (fst (ends ?e)) \<noteq> q (snd (ends ?e))"
      using qb qe by (auto simp: tension_def)
    consider (a) "linked ends ?R (fst (ends ?b)) (fst (ends ?e))" "linked ends ?R (snd (ends ?b)) (snd (ends ?e))"
      | (b) "linked ends ?R (fst (ends ?b)) (snd (ends ?e))" "linked ends ?R (snd (ends ?b)) (fst (ends ?e))"
      using side [OF bt] side [OF bh] neq const by metis
    then show ?thesis
    proof cases
      case a
      show ?thesis
        using R' [OF a(1)] R' [OF a(2)] bedge by (meson linked_sym linked_trans)
    next
      case b
      show ?thesis
        using R' [OF b(1)] R' [OF b(2)] bedge by (meson linked_sym linked_trans)
    qed
  qed
  have to_e: "linked ends ?E' u (fst (ends ?e))" if "linked ends ?E u rootNode" for u
    using side [OF that] R' joined by (meson linked_sym linked_trans)
  have root_e: "linked ends ?E' rootNode (fst (ends ?e))" by (rule to_e) simp
  have "linked ends ?E' u rootNode" if "linked ends ?E u rootNode" for u
    using to_e [OF that] root_e by (meson linked_sym linked_trans)
  then show ?thesis
    unfolding spanning_def set' using sp by (simp add: spanning_def)
qed

lemma networkInvariant_pivoted:
  assumes inv: "networkInvariant ends rootNode n s" and pv: "pivotable s pr pc"
  shows "networkInvariant ends rootNode n (pivoted s pr pc)"
proof -
  have wf: "wellFormed s" and vp: "varsPartition n s" and cc: "cutColumns ends s"
    using inv by (simp_all add: networkInvariant_def)
  have "wellFormed (pivoted s pr pc)"
    unfolding pivoted_def using wellFormed_pivoted [OF wf] pv by (simp add: pivotable_def)
  moreover have "varsPartition n (pivoted s pr pc)"
    using mset_swap_entries [OF pivotable_dims(2,3) [OF pv]] vp
    by (simp add: varsPartition_def pivoted_fields)
  ultimately show ?thesis
    using cutColumns_pivoted [OF cc pv] spanning_pivoted [OF inv pv]
    by (simp add: networkInvariant_def)
qed

lemma networkInvariant_loopStep:
  assumes inv: "networkInvariant ends rootNode n s" and step: "loopStep s s'"
  shows "networkInvariant ends rootNode n s'"
  using step
proof (cases rule: loopStep_cases)
  case (pivoted pr pc)
  have wf: "wellFormed s" using inv by (simp add: networkInvariant_def)
  from loopStep_pivot [OF wf pivoted] show ?thesis using networkInvariant_pivoted [OF inv] by simp
next
  case (increased pr)
  then show ?thesis
    using inv by (simp add: networkInvariant_def wellFormed_def varsPartition_def cutColumns_def spanning_def)
qed

lemma fillConstraintRow_variable_column:
  assumes "2 \<le> c" "c < 2 + n"
  shows "fillConstraintRow prob (replicate (2 + n) 0) dep f ! c =
     (if c = f (getDestination dep) then - 1 else if c = f (getSource dep) then 1 else 0)"
proof -
  have upd: "xs[i := x] ! c = (if i = c then x else xs ! c)" if "c < length xs" for xs :: "int list" and i x
    using that by (cases "i = c") simp_all
  show ?thesis
    unfolding fillConstraintRow_def Let_def parameter1Column_def
    using assms by (simp add: upd del: replicate_Suc replicate.simps list_update.simps)
qed

lemma builtTableau_variable_column:
  assumes enc: "extendsFillConstraintRow fill prob entryT" and k: "k < length (allDependences prob)"
    and j: "j < length (getOperations prob)"
  shows "tableau (builtTableau fill prob lastOp T0) ! (1 + k) ! (2 + j) =
     (if 2 + j = opColumnsOf (getOperations prob) (getDestination (allDependences prob ! k)) then - 1
      else if 2 + j = opColumnsOf (getOperations prob) (getSource (allDependences prob ! k)) then 1
      else 0)"
proof -
  let ?ops = "getOperations prob" and ?dep = "allDependences prob ! k"
  let ?N = "length ?ops" and ?f = "opColumnsOf ?ops"
  have f1: "\<forall>opn. ?f opn \<noteq> 1" using opColumnsOf_neq_1 by simp
  define row where "row = fillConstraintRow prob (replicate (2 + ?N) 0) ?dep ?f"
  have tab: "tableau (builtTableau fill prob lastOp T0) ! (1 + k) = row[1 := entryT ?dep]"
    unfolding builtTableau_fields(7) [OF k] row_def
    using enc f1 k by (simp add: extendsFillConstraintRow_def)
  have "row[1 := entryT ?dep] ! (2 + j) = row ! (2 + j)" by simp
  also have "\<dots> = (if 2 + j = ?f (getDestination ?dep) then - 1
      else if 2 + j = ?f (getSource ?dep) then 1 else 0)"
    unfolding row_def by (rule fillConstraintRow_variable_column) (use j in simp_all)
  finally show ?thesis unfolding tab .
qed

lemma variableEnds_operation:
  "v < length (getOperations prob) \<Longrightarrow> variableEnds prob v = (length (getOperations prob), v)"
  by (simp add: variableEnds_def)

lemma variableEnds_range:
  "fst (variableEnds prob v) \<le> length (getOperations prob)"
  "snd (variableEnds prob v) \<le> length (getOperations prob)"
proof -
  have "opColumnsOf (getOperations prob) x - 2 \<le> length (getOperations prob)" for x
    using opColumnsOf_range [of "getOperations prob" x] by arith
  then show "fst (variableEnds prob v) \<le> length (getOperations prob)"
    "snd (variableEnds prob v) \<le> length (getOperations prob)"
    by (simp_all add: variableEnds_def Let_def)
qed

lemma indicator_ends:
  fixes cs cd j N :: nat
  assumes "j < N"
  shows "(if (if 2 \<le> cs \<and> cs \<noteq> cd then cs - 2 else N) = j then 1 else 0) -
         (if (if 2 \<le> cd then cd - 2 else N) = j then 1 else 0) =
         (if 2 + j = cd then - 1 else if 2 + j = cs then (1::int) else 0)"
proof -
  have a: "(cs - 2 = j) = (2 + j = cs)" if "2 \<le> cs" using that by arith
  have b: "(cd - 2 = j) = (2 + j = cd)" if "2 \<le> cd" using that by arith
  have c: "2 + j \<noteq> cs" if "\<not> 2 \<le> cs" using that by arith
  have d: "2 + j \<noteq> cd" if "\<not> 2 \<le> cd" using that by arith
  have n: "N \<noteq> j" using assms by simp
  show ?thesis
    by (cases "2 \<le> cs"; cases "2 \<le> cd"; cases "cs = cd") (simp_all add: a b c d n)
qed

lemma cutColumns_builtTableau:
  assumes enc: "extendsFillConstraintRow fill prob entryT"
  shows "cutColumns (variableEnds prob) (builtTableau fill prob lastOp T0)"
  unfolding cutColumns_def builtTableau_fields
proof (intro allI impI)
  let ?ops = "getOperations prob"
  let ?N = "length ?ops" and ?D = "length (allDependences prob)" and ?f = "opColumnsOf ?ops"
  fix j assume "j < length [0..<?N]"
  then have j: "j < ?N" by simp
  define p :: "nat \<Rightarrow> int" where "p = (\<lambda>u. if u = j then 1 else 0)"
  have slack: "tableau (builtTableau fill prob lastOp T0) ! (firstConstraintRow + i) !
        (firstNonBasicVariableColumn + j) = tension (variableEnds prob) p ([?N..<?N + ?D] ! i)"
    if "i < length [?N..<?N + ?D]" for i
  proof -
    have i: "i < ?D" using that by simp
    let ?dep = "allDependences prob ! i"
    have v: "[?N..<?N + ?D] ! i = ?N + i" using i by simp
    have ends: "variableEnds prob (?N + i) =
        (if 2 \<le> ?f (getSource ?dep) \<and> ?f (getSource ?dep) \<noteq> ?f (getDestination ?dep)
         then ?f (getSource ?dep) - 2 else ?N,
         if 2 \<le> ?f (getDestination ?dep) then ?f (getDestination ?dep) - 2 else ?N)"
      by (simp add: variableEnds_def Let_def)
    have "tension (variableEnds prob) p (?N + i) =
        (if 2 + j = ?f (getDestination ?dep) then - 1
         else if 2 + j = ?f (getSource ?dep) then 1 else 0)"
      unfolding tension_def ends fst_conv snd_conv p_def by (rule indicator_ends [OF j])
    then show ?thesis
      unfolding v using builtTableau_variable_column [OF enc i j] by simp
  qed
  have start: "tension (variableEnds prob) p ([0..<?N] ! j') = (if j' = j then - 1 else 0)"
    if "j' < length [0..<?N]" for j'
    using that j by (simp add: tension_def variableEnds_operation p_def)
  show "\<exists>p. (\<forall>i<length [?N..<?N + ?D].
           tableau (builtTableau fill prob lastOp T0) ! (firstConstraintRow + i) !
             (firstNonBasicVariableColumn + j) = tension (variableEnds prob) p ([?N..<?N + ?D] ! i)) \<and>
        (\<forall>j'<length [0..<?N].
           tension (variableEnds prob) p ([0..<?N] ! j') = (if j' = j then - 1 else 0))"
    by (intro exI [of _ p] conjI allI impI) (erule slack, erule start)
qed

lemma spanning_builtTableau:
  "spanning (variableEnds prob) (length (getOperations prob)) n (builtTableau fill prob lastOp T0)"
proof -
  let ?N = "length (getOperations prob)"
  let ?E = "set [0..<?N]"
  have node: "linked (variableEnds prob) ?E u ?N" if "u \<le> ?N" for u
  proof (cases "u = ?N")
    case True
    then show ?thesis by simp
  next
    case False
    then have u: "u < ?N" using that by simp
    then have "u \<in> ?E" by simp
    from linked_edge [OF this, of "variableEnds prob"] show ?thesis
      using u by (simp add: variableEnds_operation linked_sym)
  qed
  show ?thesis
    unfolding spanning_def builtTableau_fields
    by (intro allI impI conjI node variableEnds_range)
qed

lemma networkInvariant_builtTableau:
  assumes "extendsFillConstraintRow fill prob entryT"
  shows "networkInvariant (variableEnds prob) (length (getOperations prob))
     (length (getOperations prob) + length (allDependences prob)) (builtTableau fill prob lastOp T0)"
  unfolding networkInvariant_def
  using wellFormed_builtTableau_extends [OF assms] varsPartition_builtTableau
    cutColumns_builtTableau [OF assms] spanning_builtTableau
  by blast

lemma networkInvariant_reaches:
  assumes "extendsFillConstraintRow fill prob entryT" "reaches (builtTableau fill prob lastOp T0) s"
  shows "networkInvariant (variableEnds prob) (length (getOperations prob))
     (length (getOperations prob) + length (allDependences prob)) s"
  by (rule reaches_invariant [OF assms(2)])
     (auto intro: networkInvariant_builtTableau [OF assms(1)] networkInvariant_loopStep)

text \<open>
  In the states that the solve loop reaches, the negative entries of a constraint row in
  the non-basic-variable columns are \<open>-1\<close>: the assertion of \<open>findPivotColumn\<close> holds there.
\<close>

lemma reached_unit_candidates:
  assumes "extendsFillConstraintRow fill prob entryT"
    and "reaches (builtTableau fill prob lastOp T0) s"
    and "firstConstraintRow \<le> pr" "pr < nRows s"
  shows "\<forall>c\<in>pivotCandidates s pr. tableau s ! pr ! c = - 1"
proof
  fix c assume c: "c \<in> pivotCandidates s pr"
  have "unitEntries s" by (rule unitEntries_network [OF networkInvariant_reaches [OF assms(1,2)]])
  then have "tableau s ! pr ! c \<in> {- 1, 0, 1}"
    using assms(3,4) c unfolding unitEntries_def pivotCandidates_def by blast
  then show "tableau s ! pr ! c = - 1" using c by (auto simp: pivotCandidates_def)
qed

lemma unitEntries_alone_not_preserved:
  "wellFormed unreachedState \<and> varsPartition 4 unreachedState \<and> unitEntries unreachedState \<and>
   (\<exists>s'. pivot unreachedState 1 2 = Inr s' \<and> tableau s' ! 2 ! 3 = 2)"
proof -
  have wf: "wellFormed unreachedState" by (simp add: wellFormed_def unreachedState_def eval_nat_numeral)
  have vp: "varsPartition 4 unreachedState"
    by (simp add: varsPartition_def unreachedState_def upt_rec eval_nat_numeral)
  have "tableau unreachedState ! r ! c \<in> {- 1, 0, 1}" if "1 \<le> r" "r < 3" "2 \<le> c" "c < 4" for r c
  proof -
    have "r = 1 \<or> r = 2" "c = 2 \<or> c = 3" using that by arith+
    then show ?thesis by (auto simp: unreachedState_def)
  qed
  then have ue: "unitEntries unreachedState" by (simp add: unitEntries_def unreachedState_def)
  have "pivot unreachedState 1 2 =
      Inr \<lparr>parameterT = 0, tableau = [[0, 0, 0, 0], [0, 0, - 1, - 1], [0, 0, 1, 2]],
        implicitBasicVariableColumnVector = [0, 0, 0],
        nonBasicVariables = [2, 1], basicVariables = [0, 3], nRows = 3, nColumns = 4\<rparr>"
    by code_simp
  then show ?thesis using wf vp ue by simp
qed

text \<open>
  C5: every pivot of a run preserves both invariants. In every state \<open>s\<close> that the solve
  loop reaches from the tableau built for a problem (by either scheduler, for any problem
  and any trial value of \<open>T\<close>: \<open>extends_fillConstraintRow\<close> and
  \<open>extends_cyclicFillConstraintRow\<close>), the entries of the constraint rows in the
  non-basic-variable columns are \<open>-1\<close>, \<open>0\<close> or \<open>1\<close>, and the two variable lists partition
  the \<open>N + D\<close> variable numbers. A pivot on an entry \<open>-1\<close> of that region returns a state
  in which both hold again; it has written the basic variable of the pivot row into the
  pivot column's place of the non-basic list and the non-basic variable of the pivot
  column into the pivot row's place of the basic list, and has left all other places of
  both lists as they were. The solve loop calls \<open>pivot\<close> on such an entry only
  (\<open>loopStep_pivot\<close>), and \<open>pivot\<close> asserts that the entry is \<open>-1\<close>.
\<close>

theorem pivot_preserves_invariants:
  assumes enc: "extendsFillConstraintRow fill prob entryT"
    and reach: "reaches (builtTableau fill prob lastOp T0) s"
    and pr: "firstConstraintRow \<le> pr" "pr < nRows s"
    and pc: "firstNonBasicVariableColumn \<le> pc" "pc < nColumns s"
    and elem: "tableau s ! pr ! pc = - 1"
    and n: "n = length (getOperations prob) + length (allDependences prob)"
  shows "unitEntries s \<and> varsPartition n s \<and>
     (\<exists>s'. pivot s pr pc = Inr s' \<and> unitEntries s' \<and> varsPartition n s' \<and>
        nonBasicVariables s' =
          (nonBasicVariables s)[pc - firstNonBasicVariableColumn := basicVariables s ! (pr - firstConstraintRow)] \<and>
        basicVariables s' =
          (basicVariables s)[pr - firstConstraintRow := nonBasicVariables s ! (pc - firstNonBasicVariableColumn)] \<and>
        basicVariables s ! (pr - firstConstraintRow) \<notin> set (nonBasicVariables s) \<and>
        nonBasicVariables s ! (pc - firstNonBasicVariableColumn) \<notin> set (basicVariables s))"
proof -
  let ?N = "length (getOperations prob)"
  have inv: "networkInvariant (variableEnds prob) ?N n s"
    unfolding n by (rule networkInvariant_reaches [OF enc reach])
  then have wf: "wellFormed s" and vp: "varsPartition n s"
    by (simp_all add: networkInvariant_def)
  have pv: "pivotable s pr pc" using wf pr pc elem by (simp add: pivotable_def)
  note d = pivotable_dims [OF pv]
  have inv': "networkInvariant (variableEnds prob) ?N n (pivoted s pr pc)"
    by (rule networkInvariant_pivoted [OF inv pv])
  have run: "pivot s pr pc = Inr (pivoted s pr pc)"
    unfolding pivoted_def by (rule pivot_closed [OF wf pr(2) pc(2) elem])
  have disj: "set (nonBasicVariables s) \<inter> set (basicVariables s) = {}"
    using varsPartition_distinct(1) [OF vp] by simp
  have b: "basicVariables s ! (pr - 1) \<notin> set (nonBasicVariables s)"
    using disj nth_mem [OF d(3)] by blast
  have e: "nonBasicVariables s ! (pc - 2) \<notin> set (basicVariables s)"
    by (rule nonBasic_not_basic [OF vp d(2)])
  have "unitEntries (pivoted s pr pc)" "varsPartition n (pivoted s pr pc)"
    using unitEntries_network [OF inv'] inv' by (simp_all add: networkInvariant_def)
  then have "\<exists>s'. pivot s pr pc = Inr s' \<and> unitEntries s' \<and> varsPartition n s' \<and>
        nonBasicVariables s' = (nonBasicVariables s)[pc - 2 := basicVariables s ! (pr - 1)] \<and>
        basicVariables s' = (basicVariables s)[pr - 1 := nonBasicVariables s ! (pc - 2)] \<and>
        basicVariables s ! (pr - 1) \<notin> set (nonBasicVariables s) \<and>
        nonBasicVariables s ! (pc - 2) \<notin> set (basicVariables s)"
    using run b e by (intro exI [of _ "pivoted s pr pc"]) (simp add: pivoted_fields)
  then show ?thesis using unitEntries_network [OF inv] vp by simp
qed

theorem pivot_preserves_invariants_witness:
  "unitEntries (nextState (initialTableau chain3 2)) \<and>
   nonBasicVariables (nextState (initialTableau chain3 2)) = [0, 3, 2] \<and>
   basicVariables (nextState (initialTableau chain3 2)) = [1, 4] \<and>
   (\<exists>s'. pivot (nextState (initialTableau chain3 2)) 2 4 = Inr s' \<and> unitEntries s' \<and>
      varsPartition 5 s' \<and> nonBasicVariables s' = [0, 3, 4] \<and> basicVariables s' = [1, 2])"
proof -
  let ?init = "initialTableau chain3 2"
  let ?s = "nextState ?init"
  have s0: "builtTableau (fillConstraintRow chain3) chain3 2 0 = ?init"
    by (simp add: initialTableau_def builtTableau_def)
  have "loopStep ?init ?s" unfolding loopStep_def by code_simp
  then have "reaches ?init ?s" by (auto simp: reaches_def)
  then have reach: "reaches (builtTableau (fillConstraintRow chain3) chain3 2 0) ?s"
    unfolding s0 .
  have dims: "nRows ?s = 3" "nColumns ?s = 5" by code_simp+
  have elem: "tableau ?s ! 2 ! 4 = - 1" by code_simp
  have lists: "nonBasicVariables ?s = [0, 3, 2]" "basicVariables ?s = [1, 4]" by code_simp+
  have n: "(5::nat) = length (getOperations chain3) + length (allDependences chain3)"
    by (simp add: chain3_def allDependences_def)
  have *: "unitEntries ?s \<and> varsPartition 5 ?s \<and>
     (\<exists>s'. pivot ?s 2 4 = Inr s' \<and> unitEntries s' \<and> varsPartition 5 s' \<and>
        nonBasicVariables s' =
          (nonBasicVariables ?s)[4 - firstNonBasicVariableColumn := basicVariables ?s ! (2 - firstConstraintRow)] \<and>
        basicVariables s' =
          (basicVariables ?s)[2 - firstConstraintRow := nonBasicVariables ?s ! (4 - firstNonBasicVariableColumn)] \<and>
        basicVariables ?s ! (2 - firstConstraintRow) \<notin> set (nonBasicVariables ?s) \<and>
        nonBasicVariables ?s ! (4 - firstNonBasicVariableColumn) \<notin> set (basicVariables ?s))"
    by (rule pivot_preserves_invariants [OF extends_fillConstraintRow reach _ _ _ _ elem n])
       (simp_all add: dims)
  then obtain s' where s': "pivot ?s 2 4 = Inr s'" "unitEntries s'" "varsPartition 5 s'"
    "nonBasicVariables s' =
       (nonBasicVariables ?s)[4 - firstNonBasicVariableColumn := basicVariables ?s ! (2 - firstConstraintRow)]"
    "basicVariables s' =
       (basicVariables ?s)[2 - firstConstraintRow := nonBasicVariables ?s ! (4 - firstNonBasicVariableColumn)]"
    by (elim conjE exE)
  have "nonBasicVariables s' = [0, 3, 4]" "basicVariables s' = [1, 2]"
    unfolding s'(4,5) lists by simp_all
  with s'(1-3) have "\<exists>s'. pivot ?s 2 4 = Inr s' \<and> unitEntries s' \<and>
      varsPartition 5 s' \<and> nonBasicVariables s' = [0, 3, 4] \<and> basicVariables s' = [1, 2]"
    by (intro exI [of _ s']) simp
  then show ?thesis using * lists by simp
qed

section \<open>Dependence cycles and the initiation interval\<close>














lemma latencySum_nonneg: "0 \<le> latencySum prob c"
  unfolding latencySum_def by (induction c) simp_all




text \<open>The cycle of the recurrence example: latency sum 4 over distance sum 1.\<close>

lemma recurrence_cycle:
  "dependenceCycle recurrence [Dependence 1 0, Dependence 0 1] \<and>
   latencySum recurrence [Dependence 1 0, Dependence 0 1] = 4 \<and>
   distanceSum (distanceOf recurrence) [Dependence 1 0, Dependence 0 1] = 1 \<and>
   cycleRatio recurrence (distanceOf recurrence) [Dependence 1 0, Dependence 0 1] = 4"
proof -
  have deps: "allDependences recurrence = [Dependence 1 0, Dependence 0 1]"
    by (simp add: allDependences_def recurrence_def)
  have l: "latencySum recurrence [Dependence 1 0, Dependence 0 1] = 4"
    by (simp add: latencySum_def recurrence_def)
  have d: "distanceSum (distanceOf recurrence) [Dependence 1 0, Dependence 0 1] = 1"
    by (simp add: distanceSum_def distanceOf_def recurrence_def)
  have "dependenceCycle recurrence [Dependence 1 0, Dependence 0 1]"
    unfolding dependenceCycle_def deps by (auto intro!: exI [of _ 1])
  then show ?thesis using l d by (simp add: cycleRatio_def)
qed

end
